theory Spec2Isabelle
  imports Complex_Main "HOL-Library.AList"
begin

section \<open>Errors\<close>

text \<open>
  Every exception of the Python sources that the model can reach is a value of this type.
  A function that may raise returns \<open>error + 'a\<close>, with \<open>Inl\<close> for the exception.
\<close>

datatype error =
    KeyError string
  | IndexError
  | ValueError string
  | ZeroDivisionError
  | OverflowError

definition bind_e :: "error + 'a \<Rightarrow> ('a \<Rightarrow> error + 'b) \<Rightarrow> error + 'b" where
  "bind_e m f = (case m of Inl e \<Rightarrow> Inl e | Inr x \<Rightarrow> f x)"

fun mapM_e :: "('a \<Rightarrow> error + 'b) \<Rightarrow> 'a list \<Rightarrow> error + 'b list" where
  "mapM_e f [] = Inr []"
| "mapM_e f (x # xs) =
     (case f x of
        Inl e \<Rightarrow> Inl e
      | Inr y \<Rightarrow> (case mapM_e f xs of Inl e \<Rightarrow> Inl e | Inr ys \<Rightarrow> Inr (y # ys)))"

section \<open>Cell values\<close>

text \<open>
  A cell of a data frame is a number of numpy: a finite value, one of the two infinities, or
  NaN, the missing-value marker of pandas. Finite values are real numbers, so the rounding of
  float64 and the wrap-around of int64 are outside the model; an integer column holds
  integer-valued finite cells. The operations follow IEEE 754 on the special values: NaN is
  contagious, every comparison with NaN is false, and a division by zero gives an infinity
  or NaN (numpy warns and does not raise).
\<close>

datatype fl = Fin real | PInf | NInf | NaN

fun isnan :: "fl \<Rightarrow> bool" where
  "isnan NaN = True"
| "isnan _ = False"

fun isfinite :: "fl \<Rightarrow> bool" where
  "isfinite (Fin _) = True"
| "isfinite _ = False"

fun the_fin :: "fl \<Rightarrow> real" where
  "the_fin (Fin x) = x"
| "the_fin _ = 0"

fun fl_neg :: "fl \<Rightarrow> fl" where
  "fl_neg (Fin a) = Fin (- a)"
| "fl_neg PInf = NInf"
| "fl_neg NInf = PInf"
| "fl_neg NaN = NaN"

fun fl_add :: "fl \<Rightarrow> fl \<Rightarrow> fl" where
  "fl_add (Fin a) (Fin b) = Fin (a + b)"
| "fl_add NaN _ = NaN"
| "fl_add _ NaN = NaN"
| "fl_add PInf NInf = NaN"
| "fl_add NInf PInf = NaN"
| "fl_add PInf _ = PInf"
| "fl_add _ PInf = PInf"
| "fl_add NInf _ = NInf"
| "fl_add _ NInf = NInf"

definition fl_sub :: "fl \<Rightarrow> fl \<Rightarrow> fl" where
  "fl_sub a b = fl_add a (fl_neg b)"

fun fl_mul :: "fl \<Rightarrow> fl \<Rightarrow> fl" where
  "fl_mul (Fin a) (Fin b) = Fin (a * b)"
| "fl_mul NaN _ = NaN"
| "fl_mul _ NaN = NaN"
| "fl_mul (Fin a) PInf = (if a = 0 then NaN else if 0 < a then PInf else NInf)"
| "fl_mul (Fin a) NInf = (if a = 0 then NaN else if 0 < a then NInf else PInf)"
| "fl_mul PInf (Fin b) = (if b = 0 then NaN else if 0 < b then PInf else NInf)"
| "fl_mul NInf (Fin b) = (if b = 0 then NaN else if 0 < b then NInf else PInf)"
| "fl_mul PInf PInf = PInf"
| "fl_mul PInf NInf = NInf"
| "fl_mul NInf PInf = NInf"
| "fl_mul NInf NInf = PInf"

fun fl_div :: "fl \<Rightarrow> fl \<Rightarrow> fl" where
  "fl_div (Fin a) (Fin b) =
     (if b = 0 then (if a = 0 then NaN else if 0 < a then PInf else NInf) else Fin (a / b))"
| "fl_div NaN _ = NaN"
| "fl_div _ NaN = NaN"
| "fl_div (Fin a) PInf = Fin 0"
| "fl_div (Fin a) NInf = Fin 0"
| "fl_div PInf (Fin b) = (if 0 \<le> b then PInf else NInf)"
| "fl_div NInf (Fin b) = (if 0 \<le> b then NInf else PInf)"
| "fl_div PInf PInf = NaN"
| "fl_div PInf NInf = NaN"
| "fl_div NInf PInf = NaN"
| "fl_div NInf NInf = NaN"

fun fl_less :: "fl \<Rightarrow> fl \<Rightarrow> bool" where
  "fl_less (Fin a) (Fin b) = (a < b)"
| "fl_less NaN _ = False"
| "fl_less _ NaN = False"
| "fl_less _ NInf = False"
| "fl_less NInf _ = True"
| "fl_less PInf _ = False"
| "fl_less _ PInf = True"

fun fl_le :: "fl \<Rightarrow> fl \<Rightarrow> bool" where
  "fl_le (Fin a) (Fin b) = (a \<le> b)"
| "fl_le NaN _ = False"
| "fl_le _ NaN = False"
| "fl_le NInf _ = True"
| "fl_le _ PInf = True"
| "fl_le (Fin a) NInf = False"
| "fl_le PInf (Fin b) = False"
| "fl_le PInf NInf = False"

fun fl_eq :: "fl \<Rightarrow> fl \<Rightarrow> bool" where
  "fl_eq NaN _ = False"
| "fl_eq _ NaN = False"
| "fl_eq a b = (a = b)"

definition fl_maximum :: "fl \<Rightarrow> fl \<Rightarrow> fl" where
  "fl_maximum a b = (if isnan a \<or> isnan b then NaN else if fl_less a b then b else a)"

definition of_py_int :: "int \<Rightarrow> fl" where
  "of_py_int i = Fin (of_int i)"

definition fillna :: "fl \<Rightarrow> fl list \<Rightarrow> fl list" where
  "fillna v xs = map (\<lambda>x. if isnan x then v else x) xs"

definition replace_value :: "fl \<Rightarrow> fl \<Rightarrow> fl list \<Rightarrow> fl list" where
  "replace_value old new xs = map (\<lambda>x. if fl_eq x old then new else x) xs"

section \<open>Data frames\<close>

text \<open>
  A pandas data frame is its row count, its row index (one integer label per row; the
  default index numbers the rows from 0) and its columns in order, each a name and its cells.
  \<open>df[name]\<close> raises KeyError for an absent name; \<open>df[name] = values\<close> replaces the column
  of that name in place or appends a new one, and raises ValueError when the number of
  values is not the row count. The values of an assignment are given by position; a series
  that carries another index than the frame's is aligned on the labels first
  (\<open>align_on_index\<close> below).
\<close>

type_synonym column = "fl list"

record frame =
  nrows :: nat
  index :: "int list"
  cols :: "(string \<times> column) list"

definition wf_frame :: "frame \<Rightarrow> bool" where
  "wf_frame df \<longleftrightarrow>
     length (index df) = nrows df
     \<and> list_all (\<lambda>(name, c). length c = nrows df) (cols df) \<and> distinct (map fst (cols df))"

definition getitem :: "frame \<Rightarrow> string \<Rightarrow> error + column" where
  "getitem df name =
     (case map_of (cols df) name of None \<Rightarrow> Inl (KeyError name) | Some c \<Rightarrow> Inr c)"

definition getitems :: "frame \<Rightarrow> string list \<Rightarrow> error + column list" where
  "getitems df names = mapM_e (getitem df) names"

definition setitem :: "frame \<Rightarrow> string \<Rightarrow> column \<Rightarrow> error + frame" where
  "setitem df name values =
     (if length values \<noteq> nrows df
      then Inl (ValueError ''Length of values does not match length of index'')
      else Inr (df\<lparr>cols := AList.update name values (cols df)\<rparr>))"

text \<open>
  Frames are objects: a variable holds a reference into a store of frames. \<open>df.copy()\<close>
  allocates a new frame with the same contents, and an item assignment writes to the frame
  the reference names.
\<close>

type_synonym store = "frame list"

definition copy_frame :: "store \<Rightarrow> nat \<Rightarrow> store \<times> nat" where
  "copy_frame st r = (st @ [st ! r], length st)"

definition setitem_ref :: "store \<Rightarrow> nat \<Rightarrow> string \<Rightarrow> column \<Rightarrow> error + store" where
  "setitem_ref st r name values =
     bind_e (setitem (st ! r) name values) (\<lambda>df. Inr (st[r := df]))"

fun assign_columns :: "store \<Rightarrow> nat \<Rightarrow> (string \<times> column) list \<Rightarrow> error + store" where
  "assign_columns st r [] = Inr st"
| "assign_columns st r ((name, values) # rest) =
     (case setitem_ref st r name values of
        Inl e \<Rightarrow> Inl e
      | Inr st' \<Rightarrow> assign_columns st' r rest)"

section \<open>Decimal rendering of integers\<close>

text \<open>The column names are built with f-strings, which render an integer as \<open>str\<close> does.\<close>

definition digit_char :: "nat \<Rightarrow> char" where
  "digit_char d = ''0123456789'' ! d"

fun digits :: "nat \<Rightarrow> string" where
  "digits n = (if n < 10 then [digit_char n] else digits (n div 10) @ [digit_char (n mod 10)])"

declare digits.simps [simp del]

definition str_int :: "int \<Rightarrow> string" where
  "str_int i = (if i < 0 then CHR ''-'' # digits (nat (- i)) else digits (nat i))"

section \<open>clean\_validate.py\<close>

definition DUMMY_BID :: int where
  "DUMMY_BID = - 9999999999"

definition DUMMY_ASK :: int where
  "DUMMY_ASK = 9999999999"

definition level_columns :: "string \<Rightarrow> int \<Rightarrow> string list" where
  "level_columns prefix num_levels = map (\<lambda>level. prefix @ ''_'' @ str_int level) [1..num_levels]"

text \<open>
  \<open>np.nan_to_num(x, nan=v)\<close> replaces NaN by \<open>v\<close> and, as its defaults say, the infinities by
  the largest and smallest finite float64.
\<close>

definition float_max :: real where
  "float_max = (2 - 1 / 2 ^ 52) * 2 ^ 1023"

fun nan_to_num :: "fl \<Rightarrow> fl \<Rightarrow> fl" where
  "nan_to_num v NaN = v"
| "nan_to_num v PInf = Fin float_max"
| "nan_to_num v NInf = Fin (- float_max)"
| "nan_to_num v (Fin x) = Fin x"

text \<open>
  Adjacent levels of a two-dimensional array given by its columns:
  \<open>(a[:, :-1] rel a[:, 1:]).all()\<close>.
\<close>

definition adjacent_all :: "(fl \<Rightarrow> fl \<Rightarrow> bool) \<Rightarrow> column list \<Rightarrow> bool" where
  "adjacent_all rel cs =
     list_all (\<lambda>(c1, c2). list_all (\<lambda>(a, b). rel a b) (zip c1 c2)) (zip (butlast cs) (tl cs))"

definition count_true :: "bool list \<Rightarrow> int" where
  "count_true bs = int (length (filter (\<lambda>b. b) bs))"

record summary =
  rows :: int
  spread_violations :: int
  sizes_non_negative :: int
  bid_monotonic :: int
  ask_monotonic :: int
  halt_rows :: int

definition int_of_bool :: "bool \<Rightarrow> int" where
  "int_of_bool b = (if b then 1 else 0)"

definition sanity_checks :: "frame \<Rightarrow> int \<Rightarrow> error + summary" where
  "sanity_checks df num_levels =
     bind_e (getitem df ''bid_price_1'') (\<lambda>bid1.
     bind_e (getitem df ''ask_price_1'') (\<lambda>ask1.
     let best_bid = replace_value (of_py_int DUMMY_BID) NaN bid1;
         best_ask = replace_value (of_py_int DUMMY_ASK) NaN ask1;
         spread_ok = map (\<lambda>(b, a). fl_less b a \<or> isnan b \<or> isnan a) (zip best_bid best_ask)
     in
     bind_e (getitems df (level_columns ''bid_size'' num_levels)) (\<lambda>bid_sizes.
     bind_e (getitems df (level_columns ''ask_size'' num_levels)) (\<lambda>ask_sizes.
     let sizes_ok = (list_all (list_all (\<lambda>x. fl_le (Fin 0) x)) bid_sizes
                     \<and> list_all (list_all (\<lambda>x. fl_le (Fin 0) x)) ask_sizes)
     in
     bind_e (getitems df (level_columns ''bid_price'' num_levels)) (\<lambda>bp.
     bind_e (getitems df (level_columns ''ask_price'' num_levels)) (\<lambda>ap.
     let bid_prices = map (replace_value (of_py_int DUMMY_BID) NaN) bp;
         ask_prices = map (replace_value (of_py_int DUMMY_ASK) NaN) ap;
         bid_mono = adjacent_all (\<lambda>a b. fl_le b a) (map (map (nan_to_num NInf)) bid_prices);
         ask_mono = adjacent_all (\<lambda>a b. fl_le a b) (map (map (nan_to_num PInf)) ask_prices)
     in
     bind_e (getitem df ''event_type'') (\<lambda>event_type.
     Inr \<lparr>rows = int (nrows df),
          spread_violations = count_true (map (\<lambda>ok. \<not> ok) spread_ok),
          sizes_non_negative = int_of_bool sizes_ok,
          bid_monotonic = int_of_bool bid_mono,
          ask_monotonic = int_of_bool ask_mono,
          halt_rows = count_true (map (\<lambda>e. fl_eq e (Fin 7)) event_type)\<rparr>)))))))"

section \<open>features.py\<close>

definition level_arrays :: "frame \<Rightarrow> string \<Rightarrow> int \<Rightarrow> error + column list" where
  "level_arrays df prefix num_levels =
     getitems df (map (\<lambda>level. prefix @ ''_'' @ str_int level) [1..num_levels])"

definition mask_dummy_prices :: "column list \<Rightarrow> string \<Rightarrow> column list" where
  "mask_dummy_prices prices side =
     (if side = ''bid''
      then map (map (\<lambda>p. if fl_eq p (of_py_int DUMMY_BID) then NaN else p)) prices
      else map (map (\<lambda>p. if fl_eq p (of_py_int DUMMY_ASK) then NaN else p)) prices)"

text \<open>A Python slice \<open>xs[:k]\<close>: a negative \<open>k\<close> counts from the end.\<close>

definition slice_to :: "int \<Rightarrow> 'a list \<Rightarrow> 'a list" where
  "slice_to k xs = (if 0 \<le> k then take (nat k) xs else take (length xs - nat (- k)) xs)"

definition nansum :: "fl list \<Rightarrow> fl" where
  "nansum xs = foldl fl_add (Fin 0) (filter (\<lambda>x. \<not> isnan x) xs)"

text \<open>
  A two-dimensional array is the list of its columns; \<open>n\<close> is its number of rows, which the
  array keeps when it has no column.
\<close>

definition topk_depth :: "nat \<Rightarrow> column list \<Rightarrow> int \<Rightarrow> column" where
  "topk_depth n sizes k = map (\<lambda>i. nansum (map (\<lambda>c. c ! i) (slice_to k sizes))) [0..<n]"

definition first_column :: "column list \<Rightarrow> error + column" where
  "first_column a = (case a of [] \<Rightarrow> Inl IndexError | c # _ \<Rightarrow> Inr c)"

text \<open>
  The inner \<open>while\<close> loop of \<open>_rolling_event_rate\<close>: the left pointer moves forward while the
  timestamp under it is older than \<open>bound = t - window_ns\<close>. Reading past the end of the array
  raises IndexError.
\<close>

function advance_left_float :: "fl list \<Rightarrow> fl \<Rightarrow> nat \<Rightarrow> error + nat" where
  "advance_left_float time_ns bound left =
     (if length time_ns \<le> left then Inl IndexError
      else if fl_less (time_ns ! left) bound then advance_left_float time_ns bound (Suc left)
      else Inr left)"
  by pat_completeness auto
termination
  by (relation "measure (\<lambda>(time_ns, bound, left). length time_ns - left)") auto

declare advance_left_float.simps [simp del]

text \<open>
  The \<open>for\<close> loop, from index \<open>idx\<close> with the left pointer at \<open>left\<close>; the result is the rates
  from \<open>idx\<close> on. \<open>window_count / (window_ns / 1e9)\<close> divides a Python integer by a Python
  float, which raises ZeroDivisionError for a zero window.
\<close>

function event_rate_loop_float :: "fl list \<Rightarrow> int \<Rightarrow> nat \<Rightarrow> nat \<Rightarrow> error + fl list" where
  "event_rate_loop_float time_ns window_ns idx left =
     (if length time_ns \<le> idx then Inr []
      else (case advance_left_float time_ns (fl_sub (time_ns ! idx) (of_py_int window_ns)) left of
              Inl e \<Rightarrow> Inl e
            | Inr left' \<Rightarrow>
                if window_ns = 0 then Inl ZeroDivisionError
                else (case event_rate_loop_float time_ns window_ns (Suc idx) left' of
                        Inl e \<Rightarrow> Inl e
                      | Inr rates \<Rightarrow>
                          Inr (Fin (of_int (int idx - int left' + 1)
                                    / (of_int window_ns / 1000000000)) # rates))))"
  by pat_completeness auto
termination
  by (relation "measure (\<lambda>(time_ns, window_ns, idx, left). length time_ns - idx)") auto

declare event_rate_loop_float.simps [simp del]

definition rolling_event_rate_float :: "fl list \<Rightarrow> int \<Rightarrow> error + fl list" where
  "rolling_event_rate_float time_ns window_ns = event_rate_loop_float time_ns window_ns 0 0"

text \<open>
  The three functions above are \<open>_rolling_event_rate\<close> on an array of floats. On the int64
  array that the loader writes, the bound \<open>t - window_ns\<close> is an int64 subtraction, which wraps
  around, and numpy refuses a window that is not an int64 value (NumPy 2).
\<close>

definition in_int64 :: "int \<Rightarrow> bool" where
  "in_int64 x \<longleftrightarrow> - (2 ^ 63) \<le> x \<and> x < 2 ^ 63"

definition wrap64 :: "int \<Rightarrow> int" where
  "wrap64 x = (x + 2 ^ 63) mod 2 ^ 64 - 2 ^ 63"

function advance_left :: "int list \<Rightarrow> int \<Rightarrow> nat \<Rightarrow> error + nat" where
  "advance_left time_ns bound left =
     (if length time_ns \<le> left then Inl IndexError
      else if time_ns ! left < bound then advance_left time_ns bound (Suc left)
      else Inr left)"
  by pat_completeness auto
termination
  by (relation "measure (\<lambda>(time_ns, bound, left). length time_ns - left)") auto

declare advance_left.simps [simp del]

function event_rate_loop :: "int list \<Rightarrow> int \<Rightarrow> nat \<Rightarrow> nat \<Rightarrow> error + fl list" where
  "event_rate_loop time_ns window_ns idx left =
     (if length time_ns \<le> idx then Inr []
      else if \<not> in_int64 window_ns then Inl OverflowError
      else (case advance_left time_ns (wrap64 (time_ns ! idx - window_ns)) left of
              Inl e \<Rightarrow> Inl e
            | Inr left' \<Rightarrow>
                if window_ns = 0 then Inl ZeroDivisionError
                else (case event_rate_loop time_ns window_ns (Suc idx) left' of
                        Inl e \<Rightarrow> Inl e
                      | Inr rates \<Rightarrow>
                          Inr (Fin (of_int (int idx - int left' + 1)
                                    / (of_int window_ns / 1000000000)) # rates))))"
  by pat_completeness auto
termination
  by (relation "measure (\<lambda>(time_ns, window_ns, idx, left). length time_ns - idx)") auto

declare event_rate_loop.simps [simp del]

definition rolling_event_rate :: "int list \<Rightarrow> int \<Rightarrow> error + fl list" where
  "rolling_event_rate time_ns window_ns = event_rate_loop time_ns window_ns 0 0"

text \<open>
  \<open>df["time_ns"].to_numpy()\<close>: a column all of whose cells are int64 values is an int64
  array, any other column an array of floats.
\<close>

fun is_int64 :: "fl \<Rightarrow> bool" where
  "is_int64 (Fin x) = (of_int \<lfloor>x\<rfloor> = x \<and> - (2 ^ 63) \<le> x \<and> x < 2 ^ 63)"
| "is_int64 _ = False"

definition int64_array :: "column \<Rightarrow> int list option" where
  "int64_array c = (if list_all is_int64 c then Some (map (\<lambda>x. \<lfloor>the_fin x\<rfloor>) c) else None)"

definition event_rate_of_column :: "column \<Rightarrow> error + column" where
  "event_rate_of_column time_ns =
     (case int64_array time_ns of
        Some ts \<Rightarrow> rolling_event_rate ts 1000000000
      | None \<Rightarrow> rolling_event_rate_float time_ns 1000000000)"

text \<open>
  A series built by \<open>pd.Series(array)\<close> carries the default index \<open>0 .. n-1\<close>. Assigned to a
  frame, it is aligned on the frame's index: the row with label \<open>l\<close> receives the value at
  position \<open>l\<close> of the series, and NaN when the series has no such label. On a frame with the
  default index this is the assignment by position.
\<close>

definition align_on_index :: "column \<Rightarrow> int list \<Rightarrow> column" where
  "align_on_index values labels =
     map (\<lambda>l. if 0 \<le> l \<and> nat l < length values then values ! nat l else NaN) labels"

text \<open>
  The fixed-count rolling windows of pandas. The window ending at row \<open>i\<close> holds the rows
  \<open>i - window + 1 .. i\<close> that exist; pandas turns infinities into NaN before it aggregates and
  skips NaN, and the result is NaN when fewer than \<open>min_periods\<close> observations remain.
\<close>

definition window_obs :: "nat \<Rightarrow> fl list \<Rightarrow> nat \<Rightarrow> real list" where
  "window_obs window xs i =
     map the_fin (filter isfinite (drop (Suc i - window) (take (Suc i) xs)))"

definition rolling_sum :: "fl list \<Rightarrow> nat \<Rightarrow> fl list" where
  "rolling_sum series window =
     map (\<lambda>i. let obs = window_obs window series i
              in if 1 \<le> length obs then Fin (sum_list obs) else NaN)
         [0..<length series]"

definition sample_std :: "real list \<Rightarrow> real" where
  "sample_std obs =
     (let m = sum_list obs / real (length obs)
      in sqrt (sum_list (map (\<lambda>x. (x - m)\<^sup>2) obs) / (real (length obs) - 1)))"

definition rolling_std :: "fl list \<Rightarrow> nat \<Rightarrow> fl list" where
  "rolling_std series window =
     fillna (Fin 0)
       (map (\<lambda>i. let obs = window_obs window series i
                 in if 2 \<le> length obs then Fin (sample_std obs) else NaN)
            [0..<length series])"

text \<open>
  \<open>Series.pct_change()\<close> with its default arguments. Whether NaN is first filled forward
  with the last valid value is the default of the installed pandas (\<open>fill_method='pad'\<close>
  before pandas 3, none from then on), so the model takes it as the parameter \<open>pad\<close>.
\<close>

fun ffill_from :: "fl \<Rightarrow> fl list \<Rightarrow> fl list" where
  "ffill_from prev [] = []"
| "ffill_from prev (x # xs) = (if isnan x then prev # ffill_from prev xs else x # ffill_from x xs)"

definition pct_change :: "bool \<Rightarrow> fl list \<Rightarrow> fl list" where
  "pct_change pad xs =
     (let data = (if pad then ffill_from NaN xs else xs)
      in map (\<lambda>i. if i = 0 then NaN
                  else fl_sub (fl_div (data ! i) (data ! (i - 1))) (Fin 1))
             [0..<length xs])"

definition event_sign :: "fl \<Rightarrow> fl" where
  "event_sign e =
     (if fl_eq e (Fin 1) then Fin 1
      else if fl_eq e (Fin 2) \<or> fl_eq e (Fin 3) \<or> fl_eq e (Fin 4) \<or> fl_eq e (Fin 5) then Fin (- 1)
      else Fin 0)"

definition zip_with :: "('a \<Rightarrow> 'b \<Rightarrow> 'c) \<Rightarrow> 'a list \<Rightarrow> 'b list \<Rightarrow> 'c list" where
  "zip_with f xs ys = map (\<lambda>(x, y). f x y) (zip xs ys)"

text \<open>
  The part of \<open>compute_features\<close> before \<open>features = df.copy()\<close>: the thirteen derived columns,
  named as the assignments that follow name them, in the order of those assignments. Twelve
  of the assigned values are arrays or series with the index of \<open>df\<close>, written by position.
  \<open>realized_vol\<close> comes from \<open>pd.Series(mid)\<close> and carries the default index, so its assignment
  aligns it on the index of the copy, which is the index of \<open>df\<close>.
\<close>

definition feature_columns :: "frame \<Rightarrow> int \<Rightarrow> int \<Rightarrow> bool \<Rightarrow> error + (string \<times> column) list" where
  "feature_columns df num_levels topk pad =
     bind_e (level_arrays df ''bid_price'' num_levels) (\<lambda>bp.
     bind_e (level_arrays df ''ask_price'' num_levels) (\<lambda>ap.
     let bid_prices = mask_dummy_prices bp ''bid'';
         ask_prices = mask_dummy_prices ap ''ask''
     in
     bind_e (level_arrays df ''bid_size'' num_levels) (\<lambda>bid_sizes.
     bind_e (level_arrays df ''ask_size'' num_levels) (\<lambda>ask_sizes.
     bind_e (first_column bid_prices) (\<lambda>best_bid.
     bind_e (first_column ask_prices) (\<lambda>best_ask.
     let mid = map (\<lambda>s. fl_div s (Fin 2)) (zip_with fl_add best_bid best_ask);
         spread = zip_with fl_sub best_ask best_bid
     in
     bind_e (first_column bid_sizes) (\<lambda>bid_size1.
     bind_e (first_column ask_sizes) (\<lambda>ask_size1.
     let level1_imb = zip_with fl_div (zip_with fl_sub bid_size1 ask_size1)
                                      (zip_with fl_add bid_size1 ask_size1);
         bid_depth_k = topk_depth (nrows df) bid_sizes topk;
         ask_depth_k = topk_depth (nrows df) ask_sizes topk;
         topk_imb = zip_with fl_div (zip_with fl_sub bid_depth_k ask_depth_k)
                                    (zip_with fl_add bid_depth_k ask_depth_k);
         microprice = zip_with fl_div
                        (zip_with fl_add (zip_with fl_mul best_bid ask_size1)
                                         (zip_with fl_mul best_ask bid_size1))
                        (zip_with fl_add bid_size1 ask_size1)
     in
     bind_e (getitem df ''time_ns'') (\<lambda>time_ns.
     bind_e (event_rate_of_column time_ns) (\<lambda>event_rate.
     bind_e (getitem df ''event_type'') (\<lambda>event_type.
     let sign = map event_sign event_type
     in
     bind_e (getitem df ''direction'') (\<lambda>direction.
     bind_e (getitem df ''size'') (\<lambda>size_col.
     let signed_flow = zip_with fl_mul (zip_with fl_mul direction size_col) sign;
         order_flow_imb = rolling_sum signed_flow 100;
         mid_ret = fillna (Fin 0) (pct_change pad mid);
         realized_vol = rolling_std mid_ret 100
     in
     Inr [(''best_bid'', best_bid),
          (''best_ask'', best_ask),
          (''mid'', mid),
          (''spread'', spread),
          (''level1_imbalance'', level1_imb),
          (''topk_imbalance'', topk_imb),
          (''depth_topk_bid'', bid_depth_k),
          (''depth_topk_ask'', ask_depth_k),
          (''depth_total_topk'', zip_with fl_add bid_depth_k ask_depth_k),
          (''microprice'', microprice),
          (''event_rate'', event_rate),
          (''order_flow_imbalance'', order_flow_imb),
          (''realized_volatility'', align_on_index realized_vol (index df))])))))))))))))"

text \<open>
  \<open>compute_features\<close> on the frame that \<open>df\<close> refers to: the derived columns are computed from
  \<open>df\<close>, then written to a fresh copy, whose reference is returned with the new store.
\<close>

definition compute_features :: "store \<Rightarrow> nat \<Rightarrow> int \<Rightarrow> int \<Rightarrow> bool \<Rightarrow> error + (store \<times> nat)" where
  "compute_features st df num_levels topk pad =
     bind_e (feature_columns (st ! df) num_levels topk pad) (\<lambda>derived.
     let (st1, features) = copy_frame st df
     in bind_e (assign_columns st1 features derived) (\<lambda>st2. Inr (st2, features)))"

section \<open>labels.py\<close>

text \<open>\<open>Series.shift(periods)\<close>: the values move down by \<open>periods\<close> rows, NaN fills the gap.\<close>

definition shift :: "fl list \<Rightarrow> int \<Rightarrow> fl list" where
  "shift xs periods =
     (if 0 \<le> periods
      then replicate (min (nat periods) (length xs)) NaN @ take (length xs - nat periods) xs
      else drop (nat (- periods)) xs @ replicate (min (nat (- periods)) (length xs)) NaN)"

definition label_of :: "fl \<Rightarrow> fl \<Rightarrow> fl" where
  "label_of raw_move threshold =
     (if fl_less threshold raw_move then Fin 1
      else if fl_less raw_move (fl_neg threshold) then Fin (- 1)
      else Fin 0)"

text \<open>
  The two columns that one iteration of the loop over the horizons computes: the forward
  move \<open>mid.shift(-horizon) - mid\<close>, and its label against \<open>np.maximum(spread / 2.0, 1)\<close>.
\<close>

definition raw_move_of :: "column \<Rightarrow> int \<Rightarrow> column" where
  "raw_move_of mid h = (let future_mid = shift mid (- h) in zip_with fl_sub future_mid mid)"

definition labels_of :: "column \<Rightarrow> column \<Rightarrow> column" where
  "labels_of raw_move spread =
     (let threshold = map (\<lambda>s. fl_maximum (fl_div s (Fin 2)) (Fin 1)) spread
      in zip_with label_of raw_move threshold)"

text \<open>One iteration of the loop, on the frame \<open>labeled\<close> refers to.\<close>

definition label_step :: "store \<Rightarrow> nat \<Rightarrow> int \<Rightarrow> error + store" where
  "label_step st labeled h =
     bind_e (getitem (st ! labeled) ''mid'') (\<lambda>mid.
     let raw_move = raw_move_of mid h
     in
     bind_e (getitem (st ! labeled) ''spread'') (\<lambda>spread.
     let label = labels_of raw_move spread
     in
     bind_e (setitem_ref st labeled (''raw_move_H'' @ str_int h) raw_move) (\<lambda>st1.
     setitem_ref st1 labeled (''label_H'' @ str_int h) label)))"

fun label_loop :: "store \<Rightarrow> nat \<Rightarrow> int list \<Rightarrow> error + store" where
  "label_loop st labeled [] = Inr st"
| "label_loop st labeled (h # hs) =
     (case label_step st labeled h of
        Inl e \<Rightarrow> Inl e
      | Inr st' \<Rightarrow> label_loop st' labeled hs)"

definition generate_labels :: "store \<Rightarrow> nat \<Rightarrow> int list \<Rightarrow> error + (store \<times> nat)" where
  "generate_labels st df horizons =
     (let (st1, labeled) = copy_frame st df
      in bind_e (label_loop st1 labeled horizons) (\<lambda>st2. Inr (st2, labeled)))"

section \<open>load\_lobster.py\<close>

text \<open>
  \<open>pd.read_csv\<close> is the library's: the model starts from the two parsed tables, \<open>message\<close> and
  \<open>orderbook\<close>, each with the default index. Tables and chunks of equal row counts then have
  equal indexes, and \<open>pd.concat(..., axis=1)\<close> keeps that index. \<open>np.round\<close> rounds halves to the even neighbour, and the cast of a pandas
  series to int64 raises on NaN and on the infinities.
\<close>

definition round_half_even :: "real \<Rightarrow> real" where
  "round_half_even x =
     (let f = \<lfloor>x\<rfloor>; d = x - of_int f
      in if d < 1 / 2 then of_int f
         else if 1 / 2 < d then of_int (f + 1)
         else if even f then of_int f else of_int (f + 1))"

fun np_round :: "fl \<Rightarrow> fl" where
  "np_round (Fin x) = Fin (round_half_even x)"
| "np_round v = v"

definition astype_int64 :: "fl list \<Rightarrow> error + fl list" where
  "astype_int64 xs =
     (if list_all isfinite xs then Inr (map (\<lambda>x. Fin (of_int (\<lfloor>the_fin x\<rfloor>))) xs)
      else Inl (ValueError ''Cannot convert non-finite values (NA or inf) to integer''))"

definition concat_axis1 :: "frame \<Rightarrow> frame \<Rightarrow> frame" where
  "concat_axis1 a b = \<lparr>nrows = nrows a, index = index a, cols = cols a @ cols b\<rparr>"

definition add_time_ns :: "frame \<Rightarrow> error + frame" where
  "add_time_ns df =
     bind_e (getitem df ''time_sec'') (\<lambda>time_sec.
     bind_e (astype_int64 (map (\<lambda>t. np_round (fl_mul t (Fin 1000000000))) time_sec)) (\<lambda>time_ns.
     setitem df ''time_ns'' time_ns))"

definition misaligned :: error where
  "misaligned = ValueError ''Message and orderbook rows are misaligned.''"

definition chunk_mismatch :: error where
  "chunk_mismatch = ValueError ''Chunk size mismatch between message and orderbook.''"

definition load_full :: "frame \<Rightarrow> frame \<Rightarrow> error + frame" where
  "load_full message orderbook =
     (if nrows message \<noteq> nrows orderbook then Inl misaligned
      else add_time_ns (concat_axis1 message orderbook))"

text \<open>
  With \<open>chunksize\<close>, \<open>read_csv\<close> gives an iterator over the table in pieces of \<open>chunk_rows\<close>
  rows, the last one shorter when the rows do not divide evenly, and refuses a chunk size
  below one.
\<close>

definition frame_rows :: "nat \<Rightarrow> nat \<Rightarrow> frame \<Rightarrow> frame" where
  "frame_rows start k df =
     \<lparr>nrows = min k (nrows df - start),
      index = take k (drop start (index df)),
      cols = map (\<lambda>(name, c). (name, take k (drop start c))) (cols df)\<rparr>"

definition read_chunks :: "nat \<Rightarrow> frame \<Rightarrow> frame list" where
  "read_chunks k df = map (\<lambda>j. frame_rows (j * k) k df) [0..<(nrows df + k - 1) div k]"

text \<open>
  A generator is the list of the frames it yields and the exception that ends it, if one
  does. The loop body runs once per pair that \<open>zip\<close> produces, and \<open>zip\<close> stops when either
  iterator is exhausted.
\<close>

fun iter_pairs :: "frame list \<Rightarrow> frame list \<Rightarrow> frame list \<times> error option" where
  "iter_pairs (message_chunk # ms) (orderbook_chunk # os) =
     (if nrows message_chunk \<noteq> nrows orderbook_chunk then ([], Some chunk_mismatch)
      else (case add_time_ns (concat_axis1 message_chunk orderbook_chunk) of
              Inl e \<Rightarrow> ([], Some e)
            | Inr df \<Rightarrow> (let (yielded, err) = iter_pairs ms os in (df # yielded, err))))"
| "iter_pairs _ _ = ([], None)"

definition iter_load :: "frame \<Rightarrow> frame \<Rightarrow> int \<Rightarrow> frame list \<times> error option" where
  "iter_load message orderbook chunk_rows =
     (if chunk_rows < 1 then ([], Some (ValueError ''chunksize must be an integer >=1''))
      else iter_pairs (read_chunks (nat chunk_rows) message)
                      (read_chunks (nat chunk_rows) orderbook))"

section \<open>The market-making formulas of strategy.py\<close>

text \<open>
  Python floats are read as real numbers: rounding, overflow and NaN are outside this part of
  the model. The exceptions of float division by zero and of \<open>math.log\<close> outside its domain are
  branches of the model.
\<close>

record AvellanedaStoikovParams =
  gamma :: real
  sigma :: real
  kappa :: real
  horizon :: real

definition reservation_price :: "real \<Rightarrow> real \<Rightarrow> AvellanedaStoikovParams \<Rightarrow> real \<Rightarrow> real" where
  "reservation_price mid_price inventory params t =
     mid_price - inventory * gamma params * (sigma params)\<^sup>2 * (horizon params - t)"

definition math_log :: "real \<Rightarrow> error + real" where
  "math_log x = (if x \<le> 0 then Inl (ValueError ''math domain error'') else Inr (ln x))"

definition optimal_spread :: "AvellanedaStoikovParams \<Rightarrow> real \<Rightarrow> error + real" where
  "optimal_spread params t =
     (let term1 = gamma params * (sigma params)\<^sup>2 * (horizon params - t)
      in if gamma params = 0 then Inl ZeroDivisionError
         else if kappa params = 0 then Inl ZeroDivisionError
         else (case math_log (1 + gamma params / kappa params) of
                 Inl e \<Rightarrow> Inl e
               | Inr l \<Rightarrow> Inr (0.5 * (term1 + (2 / gamma params) * l))))"

definition default_params :: AvellanedaStoikovParams where
  "default_params = \<lparr>gamma = 0.1, sigma = 0.02, kappa = 1.5, horizon = 1.0\<rparr>"

section \<open>The backtest of strategy.py\<close>

text \<open>
  The matching engine \<open>lob_engine\<close> is a compiled extension outside the Python sources. The
  simulator uses four of its operations, which the model takes as parameters over an
  arbitrary type of book states: the constructor, \<open>add_order\<close>, \<open>match\<close> and \<open>top_levels\<close>.
  \<open>top_levels\<close> returns the bid side and the ask side, each a list of levels, each level a
  list of numbers whose first is the price, as the indexing \<open>top[side][level][0]\<close> reads it.
  The predictive model is the parameter \<open>predict\<close>, from the window of snapshots to a number.
\<close>

datatype Side = Bid | Ask

record trade =
  aggressor_id :: int
  price :: real
  qty :: real

record 'b engine =
  new_book :: 'b
  add_order :: "'b \<Rightarrow> int \<Rightarrow> real \<Rightarrow> int \<Rightarrow> Side \<Rightarrow> 'b"
  match :: "'b \<Rightarrow> trade list \<times> 'b"
  top_levels :: "'b \<Rightarrow> int \<Rightarrow> real list list \<times> real list list"

record LobsterEvent =
  e_event_type :: int
  e_price :: real
  e_size :: int
  e_direction :: int

text \<open>
  The simulator's effect on the engine is the sequence of its \<open>add_order\<close> calls. Each call is
  recorded with the index of the event being processed and with whether it is one of the two
  quote orders or the replayed market event.
\<close>

record order_call =
  at_event :: nat
  call_id :: int
  call_price :: real
  call_size :: int
  call_side :: Side
  is_quote :: bool

record 'b sim =
  book :: 'b
  snapshots :: "real list list"
  inventory :: real
  cash :: real
  trades :: int
  order_id :: int
  calls :: "order_call list"

record BacktestResult =
  orders_per_second :: real
  pnl :: real
  trades_total :: int

text \<open>
  \<open>np.array(levels, dtype=np.float32).reshape(1, 10)\<close>: numpy refuses a ragged nesting, and
  the reshape refuses any array that does not hold ten numbers.
\<close>

definition build_lob_snapshot :: "'b engine \<Rightarrow> 'b \<Rightarrow> error + real list" where
  "build_lob_snapshot eng b =
     (let (bids, asks) = top_levels eng b 5;
          levels = bids @ asks
      in if length bids \<noteq> length asks \<or> \<not> list_all (\<lambda>l. length l = length (hd levels)) levels
         then Inl (ValueError ''setting an array element with a sequence'')
         else if length (concat levels) \<noteq> 10
         then Inl (ValueError ''cannot reshape array into shape (1,10)'')
         else Inr (concat levels))"

definition first_price :: "real list list \<Rightarrow> error + real" where
  "first_price levels =
     (case levels of
        [] \<Rightarrow> Inl IndexError
      | l # _ \<Rightarrow> (case l of [] \<Rightarrow> Inl IndexError | p # _ \<Rightarrow> Inr p))"

text \<open>
  The loop over the trades that the matching step after the quotes returns. \<open>oid\<close> is the
  order-id counter at that point, one past the id of the ask quote.
\<close>

definition apply_trade :: "int \<Rightarrow> 'b sim \<Rightarrow> trade \<Rightarrow> 'b sim" where
  "apply_trade oid s tr =
     (let s1 = s\<lparr>trades := trades s + 1\<rparr>
      in if aggressor_id tr = oid - 1
         then s1\<lparr>inventory := inventory s1 - qty tr, cash := cash s1 + qty tr * price tr\<rparr>
         else s1\<lparr>inventory := inventory s1 + qty tr, cash := cash s1 - qty tr * price tr\<rparr>)"

definition settle_trades :: "int \<Rightarrow> trade list \<Rightarrow> 'b sim \<Rightarrow> 'b sim" where
  "settle_trades oid matches s = foldl (apply_trade oid) s matches"

text \<open>The body of the loop over the events, for the event \<open>event\<close> at index \<open>idx\<close>.\<close>

definition step ::
  "'b engine \<Rightarrow> (real list list \<Rightarrow> real) \<Rightarrow> AvellanedaStoikovParams \<Rightarrow> 'b sim \<Rightarrow> nat \<Rightarrow> LobsterEvent
     \<Rightarrow> error + 'b sim" where
  "step eng predict params s idx event =
     (let side = (if e_direction event = 1 then Bid else Ask);
          b1 = add_order eng (book s) (order_id s) (e_price event) (e_size event) side;
          calls1 = calls s @ [\<lparr>at_event = idx, call_id = order_id s, call_price = e_price event,
                                call_size = e_size event, call_side = side, is_quote = False\<rparr>];
          oid1 = order_id s + 1;
          b2 = snd (match eng b1)
      in
      bind_e (build_lob_snapshot eng b2) (\<lambda>snapshot.
      let snaps1 = snapshots s @ [snapshot]
      in if length snaps1 < 50
         then Inr (s\<lparr>book := b2, snapshots := snaps1, order_id := oid1, calls := calls1\<rparr>)
         else
           (let snaps2 = (if 50 < length snaps1 then tl snaps1 else snaps1);
                predicted_delta = predict snaps2;
                top = top_levels eng b2 1
            in
            bind_e (first_price (fst top)) (\<lambda>best_bid.
            bind_e (first_price (snd top)) (\<lambda>best_ask.
            let mid = (if 0 < best_bid \<and> 0 < best_ask then (best_bid + best_ask) / 2
                       else e_price event);
                toxicity_penalty = max (min predicted_delta 0.5) (- 0.5);
                adjusted_inventory = inventory s + toxicity_penalty;
                t = real idx / real (max 1 (length snaps2));
                r_price = reservation_price mid adjusted_inventory params t
            in
            bind_e (optimal_spread params t) (\<lambda>spread.
            let bid_quote = r_price - spread;
                ask_quote = r_price + spread;
                b3 = add_order eng b2 oid1 bid_quote 1 Bid;
                calls2 = calls1 @ [\<lparr>at_event = idx, call_id = oid1, call_price = bid_quote,
                                     call_size = 1, call_side = Bid, is_quote = True\<rparr>];
                oid2 = oid1 + 1;
                b4 = add_order eng b3 oid2 ask_quote 1 Ask;
                calls3 = calls2 @ [\<lparr>at_event = idx, call_id = oid2, call_price = ask_quote,
                                     call_size = 1, call_side = Ask, is_quote = True\<rparr>];
                oid3 = oid2 + 1;
                (matches, b5) = match eng b4
            in
            Inr (settle_trades oid3 matches
                   (s\<lparr>book := b5, snapshots := snaps2, order_id := oid3, calls := calls3\<rparr>))))))))"

fun run_events ::
  "'b engine \<Rightarrow> (real list list \<Rightarrow> real) \<Rightarrow> AvellanedaStoikovParams \<Rightarrow> 'b sim \<Rightarrow> nat
     \<Rightarrow> LobsterEvent list \<Rightarrow> error + 'b sim" where
  "run_events eng predict params s idx [] = Inr s"
| "run_events eng predict params s idx (event # events) =
     (case step eng predict params s idx event of
        Inl e \<Rightarrow> Inl e
      | Inr s' \<Rightarrow> run_events eng predict params s' (Suc idx) events)"

definition initial_sim :: "'b engine \<Rightarrow> 'b sim" where
  "initial_sim eng =
     \<lparr>book = new_book eng, snapshots = [], inventory = 0, cash = 0, trades = 0, order_id = 1,
      calls = []\<rparr>"

definition run_loop ::
  "'b engine \<Rightarrow> (real list list \<Rightarrow> real) \<Rightarrow> AvellanedaStoikovParams \<Rightarrow> LobsterEvent list
     \<Rightarrow> error + 'b sim" where
  "run_loop eng predict params events = run_events eng predict params (initial_sim eng) 0 events"

text \<open>
  The mark-to-market price after the loop. The second price is read only when the first is
  positive, as the \<open>and\<close> of the source evaluates it.
\<close>

definition final_mid :: "'b engine \<Rightarrow> 'b \<Rightarrow> error + real" where
  "final_mid eng b =
     (let final_top = top_levels eng b 1
      in bind_e (first_price (fst final_top)) (\<lambda>bid.
         if 0 < bid
         then bind_e (first_price (snd final_top)) (\<lambda>ask.
                if 0 < ask then Inr ((bid + ask) / 2) else Inr 0)
         else Inr 0))"

text \<open>
  \<open>run_backtest\<close>; \<open>elapsed\<close> is the wall-clock time the two readings of
  \<open>time.perf_counter\<close> measure.
\<close>

definition run_backtest ::
  "'b engine \<Rightarrow> (real list list \<Rightarrow> real) \<Rightarrow> AvellanedaStoikovParams \<Rightarrow> LobsterEvent list \<Rightarrow> real
     \<Rightarrow> error + BacktestResult" where
  "run_backtest eng predict params events elapsed =
     bind_e (run_loop eng predict params events) (\<lambda>s.
     let ops = (if 0 < elapsed then real_of_int (order_id s) / elapsed else 0)
     in bind_e (final_mid eng (book s)) (\<lambda>fm.
        Inr \<lparr>orders_per_second = ops, pnl = cash s + inventory s * fm,
             trades_total = trades s\<rparr>))"

section \<open>Reference definitions from the specification\<close>

text \<open>
  The brute-force event rate, in the words of the specification: the number of events
  \<open>j \<le> i\<close> with \<open>time[j] \<ge> time[i] - window\<close>, divided by the window length in seconds.
\<close>

definition event_rate_spec :: "int list \<Rightarrow> int \<Rightarrow> nat \<Rightarrow> real" where
  "event_rate_spec ts w i =
     real (length (filter (\<lambda>j. ts ! i - w \<le> ts ! j) [0..<Suc i])) / (real_of_int w / 1000000000)"

text \<open>The frame has every column of the list.\<close>

definition has_columns :: "frame \<Rightarrow> string list \<Rightarrow> bool" where
  "has_columns df names = list_all (\<lambda>name. map_of (cols df) name \<noteq> None) names"

text \<open>The columns that \<open>sanity_checks\<close> reads.\<close>

definition sanity_columns :: "int \<Rightarrow> string list" where
  "sanity_columns num_levels =
     [''bid_price_1'', ''ask_price_1''] @ level_columns ''bid_size'' num_levels
     @ level_columns ''ask_size'' num_levels @ level_columns ''bid_price'' num_levels
     @ level_columns ''ask_price'' num_levels @ [''event_type'']"

text \<open>
  A spread violation, in the words of the specification: after sentinel masking both best
  prices are present and the best bid is at least the best ask.
\<close>

definition spread_violation_spec :: "fl \<Rightarrow> fl \<Rightarrow> bool" where
  "spread_violation_spec bid1 ask1 =
     (let best_bid = (if fl_eq bid1 (of_py_int DUMMY_BID) then NaN else bid1);
          best_ask = (if fl_eq ask1 (of_py_int DUMMY_ASK) then NaN else ask1)
      in \<not> isnan best_bid \<and> \<not> isnan best_ask \<and> fl_le best_ask best_bid)"

text \<open>A column of the frame a call returns, or the exception of the call.\<close>

definition labelled_column :: "store \<Rightarrow> nat \<Rightarrow> int list \<Rightarrow> string \<Rightarrow> error + column" where
  "labelled_column st df horizons name =
     bind_e (generate_labels st df horizons) (\<lambda>(st', labeled). getitem (st' ! labeled) name)"

definition feature_column :: "store \<Rightarrow> nat \<Rightarrow> int \<Rightarrow> int \<Rightarrow> bool \<Rightarrow> string \<Rightarrow> error + column" where
  "feature_column st df num_levels topk pad name =
     bind_e (compute_features st df num_levels topk pad) (\<lambda>(st', features).
       getitem (st' ! features) name)"

text \<open>
  The columns of a frame as a map, after the iteration of the label loop for the horizon
  \<open>h\<close>, given the \<open>mid\<close> and \<open>spread\<close> columns it reads.
\<close>

definition horizon_update :: "column \<Rightarrow> column \<Rightarrow> (string \<rightharpoonup> column) \<Rightarrow> int \<Rightarrow> (string \<rightharpoonup> column)" where
  "horizon_update mid spread m h =
     (m(''raw_move_H'' @ str_int h \<mapsto> raw_move_of mid h))
       (''label_H'' @ str_int h \<mapsto> labels_of (raw_move_of mid h) spread)"

text \<open>The column map after a list of item assignments, the later ones winning.\<close>

definition assigned :: "(string \<rightharpoonup> column) \<Rightarrow> (string \<times> column) list \<Rightarrow> (string \<rightharpoonup> column)" where
  "assigned m cs = foldl (\<lambda>m (name, c). m(name \<mapsto> c)) m cs"

text \<open>The columns that \<open>compute_features\<close> reads, and the names of the columns it assigns.\<close>

definition feature_input_columns :: "int \<Rightarrow> string list" where
  "feature_input_columns num_levels =
     level_columns ''bid_price'' num_levels @ level_columns ''ask_price'' num_levels
     @ level_columns ''bid_size'' num_levels @ level_columns ''ask_size'' num_levels
     @ [''time_ns'', ''event_type'', ''direction'', ''size'']"

definition derived_names :: "string list" where
  "derived_names =
     [''best_bid'', ''best_ask'', ''mid'', ''spread'', ''level1_imbalance'', ''topk_imbalance'',
      ''depth_topk_bid'', ''depth_topk_ask'', ''depth_total_topk'', ''microprice'', ''event_rate'',
      ''order_flow_imbalance'', ''realized_volatility'']"

text \<open>The names of the columns that \<open>generate_labels\<close> assigns for a list of horizons.\<close>

definition label_names :: "int list \<Rightarrow> string list" where
  "label_names horizons =
     concat (map (\<lambda>h. [''raw_move_H'' @ str_int h, ''label_H'' @ str_int h]) horizons)"

text \<open>
  What the simulator needs from the engine to run: \<open>top_levels(5)\<close> is a rectangular
  nesting of ten numbers, which \<open>reshape(1, 10)\<close> accepts, and \<open>top_levels(1)\<close> has a first
  level with a price on each side.
\<close>

definition engine_ok :: "'b engine \<Rightarrow> bool" where
  "engine_ok eng \<longleftrightarrow>
     (\<forall>b. (case top_levels eng b 5 of
              (bids, asks) \<Rightarrow>
                length bids = length asks
                \<and> list_all (\<lambda>l. length l = length (hd (bids @ asks))) (bids @ asks)
                \<and> length (concat (bids @ asks)) = 10)
          \<and> (case top_levels eng b 1 of
                (bids, asks) \<Rightarrow> bids \<noteq> [] \<and> hd bids \<noteq> [] \<and> asks \<noteq> [] \<and> hd asks \<noteq> []))"

text \<open>
  The accounting of the specification for the trades of one matching step: a trade whose
  aggressor is the ask quote lowers the inventory by its quantity and raises the cash by
  quantity times price; any other trade raises the inventory and lowers the cash.
\<close>

definition inventory_change :: "int \<Rightarrow> trade list \<Rightarrow> real" where
  "inventory_change ask_id matches =
     sum_list (map (\<lambda>tr. if aggressor_id tr = ask_id then - qty tr else qty tr) matches)"

definition cash_change :: "int \<Rightarrow> trade list \<Rightarrow> real" where
  "cash_change ask_id matches =
     sum_list (map (\<lambda>tr. if aggressor_id tr = ask_id then qty tr * price tr
                          else - (qty tr * price tr)) matches)"

text \<open>The size and side of the quote orders submitted while the event \<open>idx\<close> is processed.\<close>

definition quotes_at :: "nat \<Rightarrow> order_call list \<Rightarrow> (int \<times> Side) list" where
  "quotes_at idx cs =
     map (\<lambda>c. (call_size c, call_side c)) (filter (\<lambda>c. at_event c = idx \<and> is_quote c) cs)"

text \<open>
  No timestamp of the frame is an int64 value within one window (10^9 ns) of the int64
  minimum, so that the bound \<open>t - window_ns\<close> of the event rate does not wrap around.
\<close>

definition times_in_range :: "frame \<Rightarrow> bool" where
  "times_in_range df \<longleftrightarrow>
     (case map_of (cols df) ''time_ns'' of
        None \<Rightarrow> True
      | Some c \<Rightarrow> list_all (\<lambda>x. \<not> (is_int64 x \<and> the_fin x < - (2 ^ 63) + 1000000000)) c)"

text \<open>The frame has the default index, which numbers the rows from 0.\<close>

definition default_index :: "frame \<Rightarrow> bool" where
  "default_index df \<longleftrightarrow> index df = map int [0..<nrows df]"

section \<open>Example inputs\<close>

text \<open>
  A message table of four rows and an order book table of two rows with one level, as
  \<open>read_csv\<close> parses them.
\<close>

definition message4 :: frame where
  "message4 =
     \<lparr>nrows = 4, index = [0, 1, 2, 3],
      cols = [(''time_sec'', [Fin 34200, Fin 34200.5, Fin 34201, Fin 34201.25]),
              (''event_type'', [Fin 1, Fin 1, Fin 3, Fin 4]),
              (''order_id'', [Fin 11, Fin 12, Fin 11, Fin 12]),
              (''size'', [Fin 100, Fin 50, Fin 100, Fin 50]),
              (''price'', [Fin 1000000, Fin 1000100, Fin 1000000, Fin 1000100]),
              (''direction'', [Fin 1, Fin (- 1), Fin 1, Fin (- 1)])]\<rparr>"

definition orderbook2 :: frame where
  "orderbook2 =
     \<lparr>nrows = 2, index = [0, 1],
      cols = [(''ask_price_1'', [Fin 1000200, Fin 1000100]),
              (''ask_size_1'', [Fin 10, Fin 50]),
              (''bid_price_1'', [Fin 1000000, Fin 1000000]),
              (''bid_size_1'', [Fin 100, Fin 100])]\<rparr>"

text \<open>
  An aligned frame of four rows with one level: the second row is crossed, the third has no
  bid (sentinel price, with a stored size of 5), the fourth is locked.
\<close>

definition aligned4 :: frame where
  "aligned4 =
     \<lparr>nrows = 4, index = [0, 1, 2, 3],
      cols = [(''time_ns'', [Fin 34200000000000, Fin 34200500000000, Fin 34201000000000,
                             Fin 34201250000000]),
              (''event_type'', [Fin 1, Fin 1, Fin 7, Fin 4]),
              (''size'', [Fin 100, Fin 50, Fin 100, Fin 50]),
              (''direction'', [Fin 1, Fin (- 1), Fin 1, Fin (- 1)]),
              (''ask_price_1'', [Fin 1000200, Fin 1000100, Fin 1000100, Fin 1000100]),
              (''ask_size_1'', [Fin 10, Fin 50, Fin 50, Fin 50]),
              (''bid_price_1'', [Fin 1000000, Fin 1000300, Fin (- 9999999999), Fin 1000100]),
              (''bid_size_1'', [Fin 100, Fin 100, Fin 5, Fin 20])]\<rparr>"

text \<open>A frame of three rows with a rising mid price and a spread of one tick.\<close>

definition labels_input :: frame where
  "labels_input =
     \<lparr>nrows = 3, index = [0, 1, 2],
      cols = [(''mid'', [Fin 100, Fin 102, Fin 104]), (''spread'', [Fin 1, Fin 1, Fin 1])]\<rparr>"

text \<open>
  A second aligned frame whose first two rows are those of \<open>aligned4\<close> and whose later rows
  differ in every column.
\<close>

definition aligned4_later :: frame where
  "aligned4_later =
     \<lparr>nrows = 4, index = [0, 1, 2, 3],
      cols = [(''time_ns'', [Fin 34200000000000, Fin 34200500000000, Fin 34200600000000,
                             Fin 34200700000000]),
              (''event_type'', [Fin 1, Fin 1, Fin 1, Fin 3]),
              (''size'', [Fin 100, Fin 50, Fin 700, Fin 900]),
              (''direction'', [Fin 1, Fin (- 1), Fin (- 1), Fin 1]),
              (''ask_price_1'', [Fin 1000200, Fin 1000100, Fin 1000500, Fin 1000600]),
              (''ask_size_1'', [Fin 10, Fin 50, Fin 1, Fin 2]),
              (''bid_price_1'', [Fin 1000000, Fin 1000300, Fin 1000400, Fin 1000300]),
              (''bid_size_1'', [Fin 100, Fin 100, Fin 3, Fin 4])]\<rparr>"

text \<open>
  Two frames of three rows whose index starts at 1, as the index of a frame does after its
  first row is dropped (\<open>df.iloc[1:]\<close>, or a filter that rejects row 0). Their first two
  rows are the same; the third rows differ in the prices only.
\<close>

definition sliced3 :: frame where
  "sliced3 =
     \<lparr>nrows = 3, index = [1, 2, 3],
      cols = [(''time_ns'', [Fin 34200000000000, Fin 34200500000000, Fin 34201000000000]),
              (''event_type'', [Fin 1, Fin 1, Fin 1]),
              (''size'', [Fin 10, Fin 10, Fin 10]),
              (''direction'', [Fin 1, Fin 1, Fin 1]),
              (''ask_price_1'', [Fin 101, Fin 201, Fin 301]),
              (''ask_size_1'', [Fin 10, Fin 10, Fin 10]),
              (''bid_price_1'', [Fin 99, Fin 199, Fin 299]),
              (''bid_size_1'', [Fin 10, Fin 10, Fin 10])]\<rparr>"

definition sliced3_later :: frame where
  "sliced3_later =
     \<lparr>nrows = 3, index = [1, 2, 3],
      cols = [(''time_ns'', [Fin 34200000000000, Fin 34200500000000, Fin 34201000000000]),
              (''event_type'', [Fin 1, Fin 1, Fin 1]),
              (''size'', [Fin 10, Fin 10, Fin 10]),
              (''direction'', [Fin 1, Fin 1, Fin 1]),
              (''ask_price_1'', [Fin 101, Fin 201, Fin 601]),
              (''ask_size_1'', [Fin 10, Fin 10, Fin 10]),
              (''bid_price_1'', [Fin 99, Fin 199, Fin 599]),
              (''bid_size_1'', [Fin 10, Fin 10, Fin 10])]\<rparr>"

text \<open>
  A well-formed frame with the default index whose first two timestamps are int64 values
  within one window of the int64 minimum.
\<close>

definition earliest3 :: frame where
  "earliest3 =
     \<lparr>nrows = 3, index = [0, 1, 2],
      cols = [(''time_ns'', [Fin (- 9223372036854775808), Fin (- 9223372036854775807), Fin 0]),
              (''event_type'', [Fin 1, Fin 1, Fin 1]),
              (''size'', [Fin 10, Fin 10, Fin 10]),
              (''direction'', [Fin 1, Fin 1, Fin 1]),
              (''ask_price_1'', [Fin 101, Fin 201, Fin 301]),
              (''ask_size_1'', [Fin 10, Fin 10, Fin 10]),
              (''bid_price_1'', [Fin 99, Fin 199, Fin 299]),
              (''bid_size_1'', [Fin 10, Fin 10, Fin 10])]\<rparr>"

text \<open>A frame that already holds a column named \<open>label_H1\<close>, as an exported labelled table does.\<close>

definition relabel_input :: frame where
  "relabel_input =
     \<lparr>nrows = 3, index = [0, 1, 2],
      cols = [(''mid'', [Fin 100, Fin 102, Fin 104]), (''spread'', [Fin 1, Fin 1, Fin 1]),
              (''label_H1'', [Fin 0, Fin 0, Fin 0])]\<rparr>"

text \<open>
  An engine for the examples: it fills every resting order at its own price on the next
  matching step and always shows a price of 1 on both sides.
\<close>

definition echo_engine :: "(int \<times> real \<times> int \<times> Side) list engine" where
  "echo_engine =
     \<lparr>new_book = [],
      add_order = (\<lambda>b i p sz sd. b @ [(i, p, sz, sd)]),
      match = (\<lambda>b. (map (\<lambda>(i, p, sz, sd). \<lparr>aggressor_id = i, price = p, qty = of_int sz\<rparr>) b, [])),
      top_levels = (\<lambda>b k. (replicate (nat k) [1], replicate (nat k) [1]))\<rparr>"

definition buy_event :: LobsterEvent where
  "buy_event = \<lparr>e_event_type = 1, e_price = 100, e_size = 10, e_direction = 1\<rparr>"

section \<open>Properties of the market-making formulas\<close>

lemma optimal_spread_closed_form:
  assumes "gamma p \<noteq> 0" and "kappa p \<noteq> 0" and "0 < 1 + gamma p / kappa p"
  shows "optimal_spread p t =
           Inr (0.5 * (gamma p * (sigma p)\<^sup>2 * (horizon p - t)
                       + (2 / gamma p) * ln (1 + gamma p / kappa p)))"
  using assms by (simp add: optimal_spread_def math_log_def)

lemma optimal_spread_default_positive:
  "\<exists>v. optimal_spread default_params 0 = Inr v \<and> 0 < v"
proof -
  have l: "0 < ln (1 + (0.1::real) / 1.5)"
    by (rule ln_gt_zero) simp
  have "optimal_spread default_params 0 =
          Inr (0.5 * (0.1 * (0.02::real)\<^sup>2 * (1.0 - 0) + (2 / 0.1) * ln (1 + 0.1 / 1.5)))"
    using optimal_spread_closed_form [of default_params 0]
    by (simp add: default_params_def)
  moreover have "0 < 0.5 * (0.1 * (0.02::real)\<^sup>2 * (1.0 - 0) + (2 / 0.1) * ln (1 + 0.1 / 1.5))"
  proof -
    have "0 < (2 / 0.1) * ln (1 + (0.1::real) / 1.5)"
      using l by (intro mult_pos_pos) simp_all
    moreover have "0 < 0.1 * (0.02::real)\<^sup>2 * (1.0 - 0)"
      by simp
    ultimately show ?thesis
      by (intro mult_pos_pos add_pos_pos) simp_all
  qed
  ultimately show ?thesis by blast
qed

text \<open>
  C7. \<open>reservation_price\<close> and \<open>optimal_spread\<close> compute the closed-form Avellaneda-Stoikov
  expressions \<open>mid - inventory * gamma * sigma\<^sup>2 * (horizon - t)\<close> and
  \<open>0.5 * (gamma * sigma\<^sup>2 * (horizon - t) + (2 / gamma) * ln (1 + gamma / kappa))\<close>; the
  second whenever the divisions and the logarithm are defined, which is the case for all
  positive \<open>gamma\<close> and \<open>kappa\<close>. At gamma = 0.1, sigma = 0.02, kappa = 1.5, horizon = 1, t = 0,
  mid = 100 and inventory = 0 the reservation price is exactly 100 and the optimal spread is
  a positive number.
\<close>

theorem C7_avellaneda_stoikov_closed_form:
  "reservation_price m q p t = m - q * gamma p * (sigma p)\<^sup>2 * (horizon p - t)
   \<and> (0 < gamma p \<and> 0 < kappa p \<longrightarrow>
        optimal_spread p t =
          Inr (0.5 * (gamma p * (sigma p)\<^sup>2 * (horizon p - t)
                      + (2 / gamma p) * ln (1 + gamma p / kappa p))))
   \<and> reservation_price 100 0 default_params 0 = 100
   \<and> (\<exists>v. optimal_spread default_params 0 = Inr v \<and> 0 < v)"
proof -
  have "optimal_spread p t =
          Inr (0.5 * (gamma p * (sigma p)\<^sup>2 * (horizon p - t)
                      + (2 / gamma p) * ln (1 + gamma p / kappa p)))"
    if "0 < gamma p" "0 < kappa p"
  proof -
    have "0 < 1 + gamma p / kappa p"
      using that by (simp add: add_pos_pos)
    then show ?thesis
      using that optimal_spread_closed_form [of p t] by simp
  qed
  then show ?thesis
    using optimal_spread_default_positive by (simp add: reservation_price_def)
qed

theorem C7_avellaneda_stoikov_witness:
  "0 < gamma default_params \<and> 0 < kappa default_params
   \<and> optimal_spread default_params (1/2) =
       Inr (0.5 * (0.1 * (0.02::real)\<^sup>2 * (1 - 1/2) + (2 / 0.1) * ln (1 + 0.1 / 1.5)))"
  using C7_avellaneda_stoikov_closed_form [of 100 0 default_params "1/2"]
  by (simp add: default_params_def)

section \<open>The rolling event rate\<close>

lemma fl_less_embedded:
  "fl_less (of_py_int a) (fl_sub (of_py_int b) (of_py_int w)) \<longleftrightarrow> a < b - w"
  by (simp add: of_py_int_def fl_sub_def flip: of_int_diff)

lemma advance_left_finds:
  assumes "i < length ts" and "\<not> ts ! i < b"
  shows "left \<le> i \<Longrightarrow>
         \<exists>l. advance_left_float (map of_py_int ts) (fl_sub (of_py_int (b + w)) (of_py_int w)) left = Inr l
              \<and> left \<le> l \<and> l \<le> i \<and> (\<forall>j. left \<le> j \<and> j < l \<longrightarrow> ts ! j < b) \<and> \<not> ts ! l < b"
proof (induction "i - left" arbitrary: left)
  case 0
  then have "left = i" by simp
  then show ?case
    using assms fl_less_embedded [of "ts ! i" "b + w" w]
    by (subst advance_left_float.simps) auto
next
  case (Suc n)
  then have lt: "left < i" by simp
  show ?case
  proof (cases "ts ! left < b")
    case True
    have "n = i - Suc left" using Suc.hyps(2) by simp
    moreover have "Suc left \<le> i" using lt by simp
    ultimately obtain l where l:
      "advance_left_float (map of_py_int ts) (fl_sub (of_py_int (b + w)) (of_py_int w)) (Suc left) = Inr l"
      "Suc left \<le> l" "l \<le> i" "\<forall>j. Suc left \<le> j \<and> j < l \<longrightarrow> ts ! j < b" "\<not> ts ! l < b"
      using Suc.hyps(1) [of "Suc left"] by blast
    have step: "advance_left_float (map of_py_int ts) (fl_sub (of_py_int (b + w)) (of_py_int w)) left = Inr l"
      using True lt assms(1) l(1) fl_less_embedded [of "ts ! left" "b + w" w]
      by (subst advance_left_float.simps) auto
    have "\<forall>j. left \<le> j \<and> j < l \<longrightarrow> ts ! j < b"
    proof (intro allI impI)
      fix j assume "left \<le> j \<and> j < l"
      then show "ts ! j < b"
        using True l(4) by (cases "j = left") auto
    qed
    then show ?thesis using step l by auto
  next
    case False
    then have "advance_left_float (map of_py_int ts) (fl_sub (of_py_int (b + w)) (of_py_int w)) left = Inr left"
      using lt assms(1) fl_less_embedded [of "ts ! left" "b + w" w]
      by (subst advance_left_float.simps) auto
    then show ?thesis using False lt by auto
  qed
qed


lemma count_window:
  assumes "l \<le> n" and "\<forall>j<l. \<not> P j" and "\<forall>j. l \<le> j \<and> j < n \<longrightarrow> P j"
  shows "length (filter P [0..<n]) = n - l"
proof -
  have split: "[0..<n] = [0..<l] @ [l..<n]"
    using upt_add_eq_append [of 0 l "n - l"] assms(1) by simp
  have "filter P [0..<l] = []"
    using assms(2) by (auto simp: filter_empty_conv)
  moreover have "filter P [l..<n] = [l..<n]"
    using assms(3) by (auto simp: filter_id_conv)
  ultimately show ?thesis
    by (simp add: split)
qed

lemma event_rate_loop_spec:
  assumes "sorted ts" and "0 < w"
  shows "idx \<le> length ts \<Longrightarrow> left \<le> idx \<Longrightarrow>
         (\<forall>j<left. \<forall>i. idx \<le> i \<and> i < length ts \<longrightarrow> ts ! j < ts ! i - w) \<Longrightarrow>
         event_rate_loop_float (map of_py_int ts) w idx left =
           Inr (map (\<lambda>i. Fin (event_rate_spec ts w i)) [idx..<length ts])"
proof (induction "length ts - idx" arbitrary: idx left)
  case 0
  then show ?case
    by (subst event_rate_loop_float.simps) simp
next
  case (Suc n)
  then have lt: "idx < length ts" by simp
  define b where "b = ts ! idx - w"
  have nb: "\<not> ts ! idx < b" using assms(2) by (simp add: b_def)
  obtain l where l:
    "advance_left_float (map of_py_int ts) (fl_sub (of_py_int (b + w)) (of_py_int w)) left = Inr l"
    "left \<le> l" "l \<le> idx" "\<forall>j. left \<le> j \<and> j < l \<longrightarrow> ts ! j < b" "\<not> ts ! l < b"
    using advance_left_finds [OF lt nb Suc.prems(2), of w] by blast
  have adv: "advance_left_float (map of_py_int ts)
               (fl_sub (map of_py_int ts ! idx) (of_py_int w)) left = Inr l"
    using l(1) lt by (simp add: b_def)
  have stale: "\<forall>j<l. ts ! j < b"
  proof (intro allI impI)
    fix j assume "j < l"
    show "ts ! j < b"
    proof (cases "j < left")
      case True
      then show ?thesis using Suc.prems(3) lt by (auto simp: b_def)
    next
      case False
      then show ?thesis using l(4) \<open>j < l\<close> by auto
    qed
  qed
  have fresh: "\<forall>j. l \<le> j \<and> j \<le> idx \<longrightarrow> b \<le> ts ! j"
  proof (intro allI impI)
    fix j assume j: "l \<le> j \<and> j \<le> idx"
    then have "ts ! l \<le> ts ! j"
      using assms(1) lt by (auto simp: sorted_iff_nth_mono)
    then show "b \<le> ts ! j" using l(5) by simp
  qed
  have inv': "\<forall>j<l. \<forall>i. Suc idx \<le> i \<and> i < length ts \<longrightarrow> ts ! j < ts ! i - w"
  proof (intro allI impI)
    fix j i assume "j < l" and i: "Suc idx \<le> i \<and> i < length ts"
    have "ts ! idx \<le> ts ! i"
      using assms(1) i by (auto simp: sorted_iff_nth_mono)
    then show "ts ! j < ts ! i - w"
      using stale \<open>j < l\<close> by (auto simp: b_def)
  qed
  have rec: "event_rate_loop_float (map of_py_int ts) w (Suc idx) l =
               Inr (map (\<lambda>i. Fin (event_rate_spec ts w i)) [Suc idx..<length ts])"
    using Suc.hyps(1) [of "Suc idx" l] Suc.hyps(2) lt l(3) inv' by simp
  have cnt: "length (filter (\<lambda>j. ts ! idx - w \<le> ts ! j) [0..<Suc idx]) = Suc idx - l"
    using count_window [of l "Suc idx" "\<lambda>j. ts ! idx - w \<le> ts ! j"] l(3) stale fresh
    by (auto simp: b_def not_le simp del: upt_Suc)
  have rate: "real_of_int (int idx - int l + 1) / (real_of_int w / 1000000000)
                = event_rate_spec ts w idx"
  proof -
    have "real_of_int (int idx - int l + 1) = real (Suc idx - l)"
      using l(3) by simp
    then show ?thesis
      unfolding event_rate_spec_def cnt by simp
  qed
  have w0: "w \<noteq> 0" using assms(2) by simp
  show ?case
    using lt adv rec rate w0
    by (subst event_rate_loop_float.simps) (simp add: upt_conv_Cons)
qed

subsection \<open>The event rate on an int64 array without wrap-around\<close>

lemma wrap64_in_range: "in_int64 x \<Longrightarrow> wrap64 x = x"
  by (simp add: wrap64_def in_int64_def)

lemma fl_less_of_py_int [simp]: "fl_less (of_py_int a) (of_py_int b) \<longleftrightarrow> a < b"
  by (simp add: of_py_int_def)

lemma fl_sub_of_py_int [simp]: "fl_sub (of_py_int a) (of_py_int b) = of_py_int (a - b)"
  by (simp add: of_py_int_def fl_sub_def)

lemma advance_left_as_float:
  "advance_left ts b left = advance_left_float (map of_py_int ts) (of_py_int b) left"
proof (induction ts b left rule: advance_left.induct)
  case (1 ts b left)
  show ?case
  proof (cases "length ts \<le> left")
    case True
    then show ?thesis
      by (subst advance_left.simps, subst advance_left_float.simps) simp
  next
    case False
    then show ?thesis
      using "1.IH"
      by (subst advance_left.simps, subst advance_left_float.simps) simp
  qed
qed

lemma event_rate_loop_as_float:
  assumes "0 < w" and "in_int64 w"
    and "\<forall>t\<in>set ts. in_int64 t \<and> - (2 ^ 63) + w \<le> t"
  shows "event_rate_loop ts w idx left = event_rate_loop_float (map of_py_int ts) w idx left"
proof (induction "length ts - idx" arbitrary: idx left)
  case 0
  then show ?case
    by (subst event_rate_loop.simps, subst event_rate_loop_float.simps) simp
next
  case (Suc k)
  then have lt: "idx < length ts" by simp
  then have "in_int64 (ts ! idx)" "- (2 ^ 63) + w \<le> ts ! idx"
    using assms(3) by auto
  then have "in_int64 (ts ! idx - w)"
    using assms(1) by (simp add: in_int64_def)
  then have bound: "wrap64 (ts ! idx - w) = ts ! idx - w"
    by (rule wrap64_in_range)
  have rec: "event_rate_loop ts w (Suc idx) l
               = event_rate_loop_float (map of_py_int ts) w (Suc idx) l" for l
    using Suc.hyps(1) [of "Suc idx" l] Suc.hyps(2) by simp
  show ?case
    using lt assms(2) bound
    by (subst event_rate_loop.simps, subst event_rate_loop_float.simps)
       (simp add: advance_left_as_float rec split: sum.splits)
qed

text \<open>
  C3, as the code has it. The timestamps are an int64 array, and the bound \<open>t - window_ns\<close>
  of the inner loop is computed in int64. For every non-decreasing sequence of int64
  timestamps that are at least one window above the int64 minimum, and every positive
  window, the two-pointer sweep of \<open>_rolling_event_rate\<close> returns at every index exactly the
  brute-force value: the number of events \<open>j \<le> i\<close> with \<open>time[j] \<ge> time[i] - window\<close>, divided
  by the window length in seconds. The lemmas above give the invariant of the left pointer:
  after the inner loop the rows from the pointer to \<open>i\<close> are exactly those inside the window.
\<close>

theorem C3_event_rate_refines_brute_force_without_wrap:
  assumes "sorted ts" and "0 < w" and "in_int64 w"
    and "list_all (\<lambda>t. in_int64 t \<and> - (2 ^ 63) + w \<le> t) ts"
  shows "rolling_event_rate ts w =
           Inr (map (\<lambda>i. Fin (event_rate_spec ts w i)) [0..<length ts])"
proof -
  have "\<forall>t\<in>set ts. in_int64 t \<and> - (2 ^ 63) + w \<le> t"
    using assms(4) by (simp add: list_all_iff)
  then have "event_rate_loop ts w 0 0 = event_rate_loop_float (map of_py_int ts) w 0 0"
    by (rule event_rate_loop_as_float [OF assms(2,3)])
  then show ?thesis
    unfolding rolling_event_rate_def
    using event_rate_loop_spec [OF assms(1,2), of 0 0] by simp
qed

text \<open>
  Without the lower bound on the timestamps the sweep does not return the brute-force
  values. For the non-decreasing timestamps \<open>-2^63, -2^63 + 1, 0\<close> and the default window
  the bound of the first row wraps around to \<open>2^63 - 10^9\<close>, every timestamp is below it, and
  the left pointer runs past the end of the array: the sweep raises IndexError, where the
  brute-force rates are 1, 2 and 1.
\<close>

theorem C3_event_rate_wraps_at_int64_minimum:
  "sorted [- (2 ^ 63), - (2 ^ 63) + 1, 0 :: int]
   \<and> rolling_event_rate [- (2 ^ 63), - (2 ^ 63) + 1, 0] 1000000000 = Inl IndexError
   \<and> map (event_rate_spec [- (2 ^ 63), - (2 ^ 63) + 1, 0] 1000000000) [0, 1, 2] = [1, 2, 1]"
proof -
  have "rolling_event_rate [- (2 ^ 63), - (2 ^ 63) + 1, 0] 1000000000 = Inl IndexError"
    by (simp add: rolling_event_rate_def event_rate_loop.simps advance_left.simps
        in_int64_def wrap64_def)
  moreover have "map (event_rate_spec [- (2 ^ 63), - (2 ^ 63) + 1, 0] 1000000000) [0, 1, 2]
                   = [1, 2, 1]"
    by (simp add: event_rate_spec_def upt_rec)
  ultimately show ?thesis
    by simp
qed

theorem C3_event_rate_witness:
  "sorted [0, 500000000, 2000000000 :: int] \<and> (0::int) < 1000000000
   \<and> in_int64 1000000000
   \<and> list_all (\<lambda>t. in_int64 t \<and> - (2 ^ 63) + 1000000000 \<le> t) [0, 500000000, 2000000000]
   \<and> rolling_event_rate [0, 500000000, 2000000000] 1000000000
       = Inr [Fin 1, Fin 2, Fin 1]"
  using C3_event_rate_refines_brute_force_without_wrap
          [of "[0, 500000000, 2000000000]" 1000000000]
  by (simp add: event_rate_spec_def upt_rec in_int64_def)

section \<open>Alignment of the two sources\<close>

lemma add_time_ns_not_alignment_error:
  "add_time_ns df \<noteq> Inl misaligned" "add_time_ns df \<noteq> Inl chunk_mismatch"
  by (auto simp: add_time_ns_def bind_e_def getitem_def astype_int64_def setitem_def
      misaligned_def chunk_mismatch_def split: option.splits sum.splits if_splits)

lemma load_full_alignment_error_iff:
  "load_full message orderbook = Inl misaligned \<longleftrightarrow> nrows message \<noteq> nrows orderbook"
  using add_time_ns_not_alignment_error(1) by (simp add: load_full_def)

lemma iter_pairs_detects_chunk_mismatch:
  "iter_pairs ms os = (ys, err) \<Longrightarrow> i < length ms \<Longrightarrow> i < length os \<Longrightarrow>
   nrows (ms ! i) \<noteq> nrows (os ! i) \<Longrightarrow> err \<noteq> None \<and> length ys \<le> i"
proof (induction ms os arbitrary: ys err i rule: iter_pairs.induct)
  case (1 m ms ob os)
  show ?case
  proof (cases "nrows m \<noteq> nrows ob")
    case True
    then show ?thesis using "1.prems"(1) by auto
  next
    case eq: False
    show ?thesis
    proof (cases "add_time_ns (concat_axis1 m ob)")
      case (Inl e)
      then show ?thesis using eq "1.prems"(1) by auto
    next
      case (Inr df)
      obtain ys' err' where rest: "iter_pairs ms os = (ys', err')"
        by (cases "iter_pairs ms os") auto
      then have res: "ys = df # ys'" "err = err'"
        using eq Inr "1.prems"(1) by auto
      from eq "1.prems"(4) obtain j where j: "i = Suc j"
        by (cases i) auto
      then have "err' \<noteq> None \<and> length ys' \<le> j"
        using "1.IH" [OF eq Inr rest, of j] "1.prems" eq by auto
      then show ?thesis using res j by simp
    qed
  qed
qed simp_all

text \<open>
  C5. \<open>load_full\<close> raises its alignment error exactly when the row counts differ, and
  \<open>iter_load\<close> raises instead of yielding at the first pair of chunks whose row counts
  differ (the lemmas above). The streaming mode nevertheless misses a mismatch of the
  overall row counts when \<open>zip\<close> runs out of the shorter source at a chunk boundary: for a
  message table of four rows, an order book table of two rows and chunks of two rows,
  \<open>load_full\<close> raises and \<open>iter_load\<close> yields one chunk of two rows and ends without an
  exception.
\<close>

theorem C5_streaming_misses_row_count_mismatch:
  "nrows message4 \<noteq> nrows orderbook2
   \<and> load_full message4 orderbook2 = Inl misaligned
   \<and> snd (iter_load message4 orderbook2 2) = None
   \<and> map nrows (fst (iter_load message4 orderbook2 2)) = [2]"
  by (simp add: load_full_def iter_load_def read_chunks_def message4_def orderbook2_def
      frame_rows_def upt_rec add_time_ns_def concat_axis1_def getitem_def bind_e_def
      astype_int64_def setitem_def round_half_even_def)

section \<open>The validator\<close>

lemma getitem_present:
  "map_of (cols df) name \<noteq> None \<Longrightarrow> \<exists>c. getitem df name = Inr c"
  by (auto simp: getitem_def)

lemma getitems_present:
  "list_all (\<lambda>name. map_of (cols df) name \<noteq> None) names \<Longrightarrow> \<exists>cs. getitems df names = Inr cs"
  unfolding getitems_def
proof (induction names)
  case Nil
  then show ?case by simp
next
  case (Cons name names)
  then obtain c cs where "getitem df name = Inr c" "mapM_e (getitem df) names = Inr cs"
    using getitem_present [of df name] by auto
  then show ?case by simp
qed

lemma getitem_length:
  "wf_frame df \<Longrightarrow> getitem df name = Inr c \<Longrightarrow> length c = nrows df"
  by (auto simp: wf_frame_def getitem_def list_all_iff split: option.splits dest!: map_of_SomeD)

lemma not_less_is_ge:
  "\<not> isnan b \<Longrightarrow> \<not> isnan a \<Longrightarrow> \<not> fl_less b a \<longleftrightarrow> fl_le a b"
  by (cases a; cases b) auto

lemma zip_as_indices:
  "length xs = n \<Longrightarrow> length ys = n \<Longrightarrow> zip xs ys = map (\<lambda>i. (xs ! i, ys ! i)) [0..<n]"
  by (auto intro!: nth_equalityI)

lemma count_true_map: "count_true (map f xs) = int (length (filter f xs))"
  by (induction xs) (simp_all add: count_true_def)

lemma count_spread_violations:
  assumes "length bid1 = n" and "length ask1 = n"
  shows "count_true (map (\<lambda>ok. \<not> ok)
           (map (\<lambda>(b, a). fl_less b a \<or> isnan b \<or> isnan a)
              (zip (replace_value (of_py_int DUMMY_BID) NaN bid1)
                   (replace_value (of_py_int DUMMY_ASK) NaN ask1))))
         = int (length (filter (\<lambda>i. spread_violation_spec (bid1 ! i) (ask1 ! i)) [0..<n]))"
proof -
  let ?bb = "replace_value (of_py_int DUMMY_BID) NaN bid1"
  let ?ba = "replace_value (of_py_int DUMMY_ASK) NaN ask1"
  have z: "zip ?bb ?ba = map (\<lambda>i. (?bb ! i, ?ba ! i)) [0..<n]"
    using assms by (intro zip_as_indices) (simp_all add: replace_value_def)
  have pointwise: "(\<not> (fl_less (?bb ! i) (?ba ! i) \<or> isnan (?bb ! i) \<or> isnan (?ba ! i)))
                     = spread_violation_spec (bid1 ! i) (ask1 ! i)" if "i < n" for i
    using that assms not_less_is_ge
    by (auto simp: spread_violation_spec_def replace_value_def Let_def)
  have "count_true (map (\<lambda>ok. \<not> ok) (map (\<lambda>(b, a). fl_less b a \<or> isnan b \<or> isnan a) (zip ?bb ?ba)))
        = count_true (map (\<lambda>i. \<not> (fl_less (?bb ! i) (?ba ! i) \<or> isnan (?bb ! i) \<or> isnan (?ba ! i)))
                          [0..<n])"
    unfolding z by (simp add: comp_def)
  also have "\<dots> = int (length (filter (\<lambda>i. \<not> (fl_less (?bb ! i) (?ba ! i) \<or> isnan (?bb ! i)
                                                \<or> isnan (?ba ! i))) [0..<n]))"
    by (rule count_true_map)
  also have "\<dots> = int (length (filter (\<lambda>i. spread_violation_spec (bid1 ! i) (ask1 ! i)) [0..<n]))"
  proof -
    have "filter (\<lambda>i. \<not> (fl_less (?bb ! i) (?ba ! i) \<or> isnan (?bb ! i) \<or> isnan (?ba ! i))) [0..<n]
          = filter (\<lambda>i. spread_violation_spec (bid1 ! i) (ask1 ! i)) [0..<n]"
      by (rule filter_cong [OF refl]) (metis pointwise atLeastLessThan_iff set_upt)
    then show ?thesis by simp
  qed
  finally show ?thesis .
qed

text \<open>
  C6. On every well-formed frame that has the columns it reads, \<open>sanity_checks\<close> returns the
  summary, never an exception, and its spread-violation count is the number of rows where,
  after sentinel masking, both best prices are present and the best bid is at least the best
  ask; a row with a missing side is not counted.
\<close>

theorem C6_spread_violations_counted:
  assumes "wf_frame df" and "has_columns df (sanity_columns num_levels)"
  shows "\<exists>s bid1 ask1.
           sanity_checks df num_levels = Inr s
           \<and> getitem df ''bid_price_1'' = Inr bid1 \<and> getitem df ''ask_price_1'' = Inr ask1
           \<and> spread_violations s =
               int (length (filter (\<lambda>i. spread_violation_spec (bid1 ! i) (ask1 ! i))
                                   [0..<nrows df]))"
proof -
  have hc: "map_of (cols df) ''bid_price_1'' \<noteq> None" "map_of (cols df) ''ask_price_1'' \<noteq> None"
    "list_all (\<lambda>name. map_of (cols df) name \<noteq> None) (level_columns ''bid_size'' num_levels)"
    "list_all (\<lambda>name. map_of (cols df) name \<noteq> None) (level_columns ''ask_size'' num_levels)"
    "list_all (\<lambda>name. map_of (cols df) name \<noteq> None) (level_columns ''bid_price'' num_levels)"
    "list_all (\<lambda>name. map_of (cols df) name \<noteq> None) (level_columns ''ask_price'' num_levels)"
    "map_of (cols df) ''event_type'' \<noteq> None"
    using assms(2) by (simp_all add: has_columns_def sanity_columns_def)
  obtain bid1 ask1 et where g1:
    "getitem df ''bid_price_1'' = Inr bid1" "getitem df ''ask_price_1'' = Inr ask1"
    "getitem df ''event_type'' = Inr et"
    using hc(1,2,7) getitem_present by blast
  obtain bs where g2: "getitems df (level_columns ''bid_size'' num_levels) = Inr bs"
    using hc(3) getitems_present by blast
  obtain as where g3: "getitems df (level_columns ''ask_size'' num_levels) = Inr as"
    using hc(4) getitems_present by blast
  obtain bp where g4: "getitems df (level_columns ''bid_price'' num_levels) = Inr bp"
    using hc(5) getitems_present by blast
  obtain ap where g5: "getitems df (level_columns ''ask_price'' num_levels) = Inr ap"
    using hc(6) getitems_present by blast
  have len: "length bid1 = nrows df" "length ask1 = nrows df"
    using assms(1) g1 getitem_length by blast+
  show ?thesis
    using g1 g2 g3 g4 g5 count_spread_violations [OF len]
    by (simp add: sanity_checks_def bind_e_def Let_def)
qed

theorem C6_spread_violations_witness:
  "wf_frame aligned4 \<and> has_columns aligned4 (sanity_columns 1)
   \<and> (\<exists>s. sanity_checks aligned4 1 = Inr s \<and> spread_violations s = 2)"
proof -
  have wf: "wf_frame aligned4"
    by (simp add: wf_frame_def aligned4_def)
  have hc: "has_columns aligned4 (sanity_columns 1)"
    by (simp add: has_columns_def sanity_columns_def level_columns_def aligned4_def str_int_def
        digits.simps digit_char_def)
  have cnt: "length (filter (\<lambda>i. spread_violation_spec
               ([Fin 1000000, Fin 1000300, Fin (- 9999999999), Fin 1000100] ! i)
               ([Fin 1000200, Fin 1000100, Fin 1000100, Fin 1000100] ! i)) [0..<4]) = 2"
    by (simp add: upt_rec spread_violation_spec_def of_py_int_def DUMMY_BID_def DUMMY_ASK_def)
  show ?thesis
    using C6_spread_violations_counted [OF wf hc] wf hc cnt
    by (auto simp: getitem_def aligned4_def)
qed

section \<open>The label generator\<close>

subsection \<open>Decimal rendering is injective\<close>

lemma digit_char_inj: "a < 10 \<Longrightarrow> b < 10 \<Longrightarrow> digit_char a = digit_char b \<Longrightarrow> a = b"
proof -
  assume "a < 10" "b < 10" "digit_char a = digit_char b"
  moreover have "distinct ''0123456789''" by simp
  ultimately show "a = b"
    unfolding digit_char_def by (simp add: nth_eq_iff_index_eq)
qed

lemma digit_char_not_minus: "d < 10 \<Longrightarrow> digit_char d \<noteq> CHR ''-''"
proof -
  assume "d < 10"
  then have "digit_char d \<in> set ''0123456789''"
    unfolding digit_char_def by (intro nth_mem) simp
  then show ?thesis by auto
qed

lemma digits_nonempty: "digits n \<noteq> []"
  by (subst digits.simps) simp

lemma digits_no_minus: "CHR ''-'' \<notin> set (digits n)"
proof (induction n rule: digits.induct)
  case (1 n)
  show ?case
  proof (cases "n < 10")
    case True
    then show ?thesis
      using digit_char_not_minus [of n] by (subst digits.simps) auto
  next
    case False
    then show ?thesis
      using "1.IH" digit_char_not_minus [of "n mod 10"] by (subst digits.simps) auto
  qed
qed

lemma digits_inj: "digits n = digits m \<Longrightarrow> n = m"
proof (induction n arbitrary: m rule: digits.induct)
  case (1 n)
  show ?case
  proof (cases "n < 10")
    case n: True
    show ?thesis
    proof (cases "m < 10")
      case True
      then show ?thesis
        using n "1.prems" digit_char_inj [of n m]
        by (simp add: digits.simps [of n] digits.simps [of m])
    next
      case False
      then show ?thesis
        using n "1.prems" digits_nonempty [of "m div 10"]
        by (simp add: digits.simps [of n] digits.simps [of m])
    qed
  next
    case n: False
    show ?thesis
    proof (cases "m < 10")
      case True
      then show ?thesis
        using n "1.prems" digits_nonempty [of "n div 10"]
        by (simp add: digits.simps [of n] digits.simps [of m])
    next
      case False
      then have "digits (n div 10) = digits (m div 10)"
        and "digit_char (n mod 10) = digit_char (m mod 10)"
        using n "1.prems" by (simp_all add: digits.simps [of n] digits.simps [of m])
      then have "n div 10 = m div 10" and "n mod 10 = m mod 10"
        using "1.IH" [OF n] digit_char_inj [of "n mod 10" "m mod 10"] by auto
      then show ?thesis
        by (metis div_mult_mod_eq)
    qed
  qed
qed

lemma str_int_inj: "str_int a = str_int b \<Longrightarrow> a = b"
proof -
  assume eq: "str_int a = str_int b"
  have hd_digits: "hd (digits n) \<noteq> CHR ''-''" for n
    using digits_no_minus [of n] digits_nonempty [of n] by (metis hd_in_set)
  show "a = b"
  proof (cases "a < 0"; cases "b < 0")
    assume "a < 0" "b < 0"
    then have "nat (- a) = nat (- b)"
      using eq digits_inj by (simp add: str_int_def)
    then show ?thesis using \<open>a < 0\<close> \<open>b < 0\<close> by simp
  next
    assume "a < 0" "\<not> b < 0"
    then have "CHR ''-'' # digits (nat (- a)) = digits (nat b)"
      using eq by (simp add: str_int_def)
    then show ?thesis using hd_digits [of "nat b"] by (metis list.sel(1))
  next
    assume "\<not> a < 0" "b < 0"
    then have "digits (nat a) = CHR ''-'' # digits (nat (- b))"
      using eq by (simp add: str_int_def)
    then show ?thesis using hd_digits [of "nat a"] by (metis list.sel(1))
  next
    assume "\<not> a < 0" "\<not> b < 0"
    then have "nat a = nat b"
      using eq digits_inj by (simp add: str_int_def)
    then show ?thesis using \<open>\<not> a < 0\<close> \<open>\<not> b < 0\<close> by simp
  qed
qed


subsection \<open>Frames and item assignment\<close>

lemma getitem_Some: "getitem df name = Inr c \<longleftrightarrow> map_of (cols df) name = Some c"
  by (auto simp: getitem_def split: option.splits)

lemma setitem_ok:
  "length v = nrows df \<Longrightarrow> setitem df name v = Inr (df\<lparr>cols := AList.update name v (cols df)\<rparr>)"
  by (simp add: setitem_def)

lemma setitem_ref_ok:
  "length v = nrows (st ! r) \<Longrightarrow>
   setitem_ref st r name v = Inr (st[r := (st ! r)\<lparr>cols := AList.update name v (cols (st ! r))\<rparr>])"
  by (simp add: setitem_ref_def setitem_ok bind_e_def)

lemma length_shift [simp]: "length (shift xs p) = length xs"
  by (auto simp: shift_def)

lemma length_zip_with [simp]: "length (zip_with f xs ys) = min (length xs) (length ys)"
  by (simp add: zip_with_def)

lemma nth_zip_with:
  "i < length xs \<Longrightarrow> i < length ys \<Longrightarrow> zip_with f xs ys ! i = f (xs ! i) (ys ! i)"
  by (simp add: zip_with_def)

lemma length_raw_move_of [simp]: "length (raw_move_of mid h) = length mid"
  by (simp add: raw_move_of_def)

lemma length_labels_of [simp]: "length (labels_of rm spread) = min (length rm) (length spread)"
  by (simp add: labels_of_def)

subsection \<open>The label loop\<close>

lemma label_step_result:
  assumes "f < length st"
    and "map_of (cols (st ! f)) ''mid'' = Some mid"
    and "map_of (cols (st ! f)) ''spread'' = Some spread"
    and "length mid = nrows (st ! f)" and "length spread = nrows (st ! f)"
  shows "\<exists>g. label_step st f h = Inr (st[f := g]) \<and> nrows g = nrows (st ! f)
             \<and> map_of (cols g) = horizon_update mid spread (map_of (cols (st ! f))) h"
proof -
  let ?raw = "raw_move_of mid h"
  let ?lab = "labels_of ?raw spread"
  let ?g1 = "(st ! f)\<lparr>cols := AList.update (''raw_move_H'' @ str_int h) ?raw (cols (st ! f))\<rparr>"
  let ?g2 = "?g1\<lparr>cols := AList.update (''label_H'' @ str_int h) ?lab (cols ?g1)\<rparr>"
  have s1: "setitem_ref st f (''raw_move_H'' @ str_int h) ?raw = Inr (st[f := ?g1])"
    using assms(4) by (intro setitem_ref_ok) simp
  have at: "st[f := ?g1] ! f = ?g1"
    using assms(1) by simp
  have s2: "setitem_ref (st[f := ?g1]) f (''label_H'' @ str_int h) ?lab = Inr (st[f := ?g2])"
    using setitem_ref_ok [of ?lab "st[f := ?g1]" f "''label_H'' @ str_int h"] assms(4,5) at
    by simp
  have "label_step st f h = Inr (st[f := ?g2])"
    using assms(2,3) s1 s2
    by (simp add: label_step_def bind_e_def getitem_def Let_def)
  moreover have "map_of (cols ?g2) = horizon_update mid spread (map_of (cols (st ! f))) h"
    by (simp add: horizon_update_def update_conv')
  ultimately show ?thesis by (intro exI [of _ ?g2]) simp
qed

lemma horizon_update_keeps:
  "horizon_update mid spread m h ''mid'' = m ''mid''"
  "horizon_update mid spread m h ''spread'' = m ''spread''"
  by (simp_all add: horizon_update_def)

lemma label_loop_result:
  assumes "f < length st"
    and "map_of (cols (st ! f)) ''mid'' = Some mid"
    and "map_of (cols (st ! f)) ''spread'' = Some spread"
    and "length mid = nrows (st ! f)" and "length spread = nrows (st ! f)"
  shows "\<exists>g. label_loop st f hs = Inr (st[f := g]) \<and> nrows g = nrows (st ! f)
             \<and> map_of (cols g) = foldl (horizon_update mid spread) (map_of (cols (st ! f))) hs"
  using assms
proof (induction hs arbitrary: st)
  case Nil
  then show ?case
    by (intro exI [of _ "st ! f"]) simp
next
  case (Cons h hs)
  obtain g1 where g1: "label_step st f h = Inr (st[f := g1])" "nrows g1 = nrows (st ! f)"
    "map_of (cols g1) = horizon_update mid spread (map_of (cols (st ! f))) h"
    using label_step_result [OF Cons.prems] by blast
  let ?st1 = "st[f := g1]"
  have at: "?st1 ! f = g1" using Cons.prems(1) by simp
  have "\<exists>g. label_loop ?st1 f hs = Inr (?st1[f := g]) \<and> nrows g = nrows (?st1 ! f)
             \<and> map_of (cols g) = foldl (horizon_update mid spread) (map_of (cols (?st1 ! f))) hs"
    using Cons.prems g1 at
    by (intro Cons.IH) (simp_all add: horizon_update_keeps)
  then obtain g where g: "label_loop ?st1 f hs = Inr (?st1[f := g])" "nrows g = nrows g1"
    "map_of (cols g) = foldl (horizon_update mid spread) (map_of (cols g1)) hs"
    using at by auto
  show ?case
    using g g1 by (intro exI [of _ g]) simp
qed

lemma horizon_names_differ:
  "''raw_move_H'' @ s \<noteq> ''label_H'' @ t"
  by simp

lemma foldl_horizon_update_member:
  "h \<in> set hs \<Longrightarrow>
   foldl (horizon_update mid spread) m hs (''raw_move_H'' @ str_int h) = Some (raw_move_of mid h)
   \<and> foldl (horizon_update mid spread) m hs (''label_H'' @ str_int h)
       = Some (labels_of (raw_move_of mid h) spread)"
proof (induction hs arbitrary: m rule: rev_induct)
  case Nil
  then show ?case by simp
next
  case (snoc h' hs)
  show ?case
  proof (cases "h = h'")
    case True
    then show ?thesis by (simp add: horizon_update_def)
  next
    case False
    then have "h \<in> set hs" using snoc.prems by simp
    moreover have "str_int h \<noteq> str_int h'"
      using False str_int_inj by blast
    ultimately show ?thesis
      using snoc.IH [of m] by (simp add: horizon_update_def)
  qed
qed

lemma foldl_horizon_update_other:
  "\<forall>h\<in>set hs. name \<noteq> ''raw_move_H'' @ str_int h \<and> name \<noteq> ''label_H'' @ str_int h \<Longrightarrow>
   foldl (horizon_update mid spread) m hs name = m name"
  by (induction hs arbitrary: m rule: rev_induct) (simp_all add: horizon_update_def)


lemma generate_labels_result:
  assumes "df < length st" and "wf_frame (st ! df)"
    and "has_columns (st ! df) [''mid'', ''spread'']"
  shows "\<exists>mid spread g.
           map_of (cols (st ! df)) ''mid'' = Some mid
           \<and> map_of (cols (st ! df)) ''spread'' = Some spread
           \<and> length mid = nrows (st ! df) \<and> length spread = nrows (st ! df)
           \<and> generate_labels st df hs = Inr (st @ [g], length st)
           \<and> nrows g = nrows (st ! df)
           \<and> map_of (cols g) = foldl (horizon_update mid spread) (map_of (cols (st ! df))) hs"
proof -
  obtain mid spread where ms:
    "map_of (cols (st ! df)) ''mid'' = Some mid" "map_of (cols (st ! df)) ''spread'' = Some spread"
    using assms(3) by (auto simp: has_columns_def)
  then have len: "length mid = nrows (st ! df)" "length spread = nrows (st ! df)"
    using assms(2) getitem_length getitem_Some by blast+
  let ?st1 = "st @ [st ! df]"
  let ?f = "length st"
  have at: "?st1 ! ?f = st ! df" by simp
  have "\<exists>g. label_loop ?st1 ?f hs = Inr (?st1[?f := g]) \<and> nrows g = nrows (?st1 ! ?f)
             \<and> map_of (cols g) = foldl (horizon_update mid spread) (map_of (cols (?st1 ! ?f))) hs"
    using ms len by (intro label_loop_result) (simp_all only: at, simp)
  then obtain g where g: "label_loop ?st1 ?f hs = Inr (?st1[?f := g])" "nrows g = nrows (st ! df)"
    "map_of (cols g) = foldl (horizon_update mid spread) (map_of (cols (st ! df))) hs"
    by (auto simp only: at)
  have "generate_labels st df hs = Inr (st @ [g], length st)"
    using g(1) by (simp add: generate_labels_def copy_frame_def bind_e_def)
  then show ?thesis
    using ms len g(2,3) by blast
qed

lemma raw_move_tail_missing:
  assumes "i < length mid" and "int (length mid) - h - 1 < int i"
  shows "raw_move_of mid h ! i = NaN"
proof -
  have h: "0 < h" using assms by linarith
  let ?n = "length mid"
  have sh: "shift mid (- h) = drop (nat h) mid @ replicate (min (nat h) ?n) NaN"
    using h by (simp add: shift_def)
  have ge: "length (drop (nat h) mid) \<le> i"
    using assms h by simp
  have "i - length (drop (nat h) mid) < min (nat h) ?n"
    using assms h by (cases "nat h \<le> ?n") auto
  then have "shift mid (- h) ! i = NaN"
    using ge by (simp add: sh nth_append)
  then show ?thesis
    using assms(1) by (simp add: raw_move_of_def nth_zip_with fl_sub_def)
qed

lemma label_of_missing [simp]: "label_of NaN t = Fin 0"
  by (cases t) (simp_all add: label_of_def)

lemma labels_tail_zero:
  assumes "i < length rm" and "i < length spread" and "rm ! i = NaN"
  shows "labels_of rm spread ! i = Fin 0"
  using assms by (simp add: labels_of_def nth_zip_with)

text \<open>
  C1, as the code has it. For every well-formed frame with the columns \<open>mid\<close> and \<open>spread\<close>
  and every configured horizon \<open>h\<close>, \<open>generate_labels\<close> returns, and in the frame it returns
  \<open>raw_move_H\<close> is missing (NaN) at every row index \<open>i > length - h - 1\<close>, while \<open>label_H\<close> at
  those rows is the value 0: the comparisons with a missing move are both false, and the
  int8 label column has no missing marker.
\<close>

theorem C1_tail_rows_raw_move_missing_label_zero:
  assumes "df < length st" and "wf_frame (st ! df)"
    and "has_columns (st ! df) [''mid'', ''spread'']"
    and "h \<in> set horizons"
    and "i < nrows (st ! df)" and "int (nrows (st ! df)) - h - 1 < int i"
  shows "\<exists>raw_move label.
           labelled_column st df horizons (''raw_move_H'' @ str_int h) = Inr raw_move
           \<and> labelled_column st df horizons (''label_H'' @ str_int h) = Inr label
           \<and> length raw_move = nrows (st ! df) \<and> length label = nrows (st ! df)
           \<and> raw_move ! i = NaN \<and> label ! i = Fin 0"
proof -
  obtain mid spread g where r:
    "length mid = nrows (st ! df)" "length spread = nrows (st ! df)"
    "generate_labels st df horizons = Inr (st @ [g], length st)"
    "map_of (cols g) = foldl (horizon_update mid spread) (map_of (cols (st ! df))) horizons"
    using generate_labels_result [OF assms(1-3), of horizons] by blast
  have cols: "map_of (cols g) (''raw_move_H'' @ str_int h) = Some (raw_move_of mid h)"
    "map_of (cols g) (''label_H'' @ str_int h) = Some (labels_of (raw_move_of mid h) spread)"
    using foldl_horizon_update_member [OF assms(4)] r(4) by simp_all
  have raw: "raw_move_of mid h ! i = NaN"
    using assms(5,6) r(1) by (intro raw_move_tail_missing) simp_all
  have lab: "labels_of (raw_move_of mid h) spread ! i = Fin 0"
    using raw assms(5) r(1,2) by (intro labels_tail_zero) simp_all
  show ?thesis
    using r(1,2,3) cols raw lab
    by (simp add: labelled_column_def bind_e_def getitem_def)
qed

lemma str_int_1: "str_int 1 = ''1''"
  by (simp add: str_int_def digits.simps digit_char_def)

text \<open>
  A missing marker in \<open>label_H\<close> is not what the code produces: with three rows and horizon 1
  the last row has no future mid,
  and its label is 0, not a missing marker.
\<close>

theorem C1_label_tail_counterexample:
  "labelled_column [labels_input] 0 [1] ''label_H1'' = Inr [Fin 1, Fin 1, Fin 0]
   \<and> int (nrows labels_input) - 1 - 1 < int 2
   \<and> \<not> isnan ([Fin 1, Fin 1, Fin 0] ! 2)"
  by (simp add: labelled_column_def generate_labels_def copy_frame_def label_step_def
      bind_e_def getitem_def setitem_ref_def setitem_def labels_input_def str_int_1
      raw_move_of_def labels_of_def shift_def zip_with_def label_of_def fl_sub_def
      fl_maximum_def)

theorem C1_tail_rows_witness:
  "0 < length [labels_input] \<and> wf_frame ([labels_input] ! 0)
   \<and> has_columns ([labels_input] ! 0) [''mid'', ''spread''] \<and> (2::int) \<in> set [1, 2]
   \<and> 1 < nrows ([labels_input] ! 0) \<and> int (nrows ([labels_input] ! 0)) - 2 - 1 < int 1
   \<and> (\<exists>raw_move label.
         labelled_column [labels_input] 0 [1, 2] (''raw_move_H'' @ str_int 2) = Inr raw_move
         \<and> labelled_column [labels_input] 0 [1, 2] (''label_H'' @ str_int 2) = Inr label
         \<and> raw_move ! 1 = NaN \<and> label ! 1 = Fin 0)"
proof -
  have a: "0 < length [labels_input]" "wf_frame ([labels_input] ! 0)"
    "has_columns ([labels_input] ! 0) [''mid'', ''spread'']" "(2::int) \<in> set [1, 2]"
    "1 < nrows ([labels_input] ! 0)" "int (nrows ([labels_input] ! 0)) - 2 - 1 < int 1"
    by (simp_all add: wf_frame_def has_columns_def labels_input_def)
  show ?thesis
    using C1_tail_rows_raw_move_missing_label_zero [OF a] a by blast
qed

section \<open>The feature engine\<close>

subsection \<open>Assigning a list of columns\<close>

lemma assigned_simps [simp]:
  "assigned m [] = m"
  "assigned m ((name, c) # cs) = assigned (m(name \<mapsto> c)) cs"
  by (simp_all add: assigned_def)

lemma assigned_other: "name \<notin> fst ` set cs \<Longrightarrow> assigned m cs name = m name"
  by (induction cs arbitrary: m) auto

lemma assigned_distinct:
  "distinct (map fst cs) \<Longrightarrow> (name, c) \<in> set cs \<Longrightarrow> assigned m cs name = Some c"
proof (induction cs arbitrary: m)
  case Nil
  then show ?case by simp
next
  case (Cons x cs)
  obtain n v where x: "x = (n, v)" by (cases x)
  show ?case
  proof (cases "(name, c) \<in> set cs")
    case True
    then show ?thesis using Cons x by simp
  next
    case False
    then have "name = n" "c = v" using Cons.prems(2) x by auto
    moreover have "n \<notin> fst ` set cs" using Cons.prems(1) x by simp
    ultimately show ?thesis using x by (simp add: assigned_other)
  qed
qed

lemma dom_assigned: "dom (assigned m cs) = dom m \<union> fst ` set cs"
proof (induction cs arbitrary: m)
  case Nil
  then show ?case by simp
next
  case (Cons x cs)
  obtain n v where x: "x = (n, v)" by (cases x)
  have "dom (assigned (m(n \<mapsto> v)) cs) = dom (m(n \<mapsto> v)) \<union> fst ` set cs"
    by (rule Cons.IH)
  then show ?case using x by auto
qed

lemma assign_columns_result:
  assumes "f < length st" and "\<forall>(name, c) \<in> set cs. length c = nrows (st ! f)"
  shows "\<exists>g. assign_columns st f cs = Inr (st[f := g]) \<and> nrows g = nrows (st ! f)
             \<and> map_of (cols g) = assigned (map_of (cols (st ! f))) cs"
  using assms
proof (induction cs arbitrary: st)
  case Nil
  then show ?case by (intro exI [of _ "st ! f"]) simp
next
  case (Cons x cs)
  obtain name c where x: "x = (name, c)" by (cases x)
  let ?g1 = "(st ! f)\<lparr>cols := AList.update name c (cols (st ! f))\<rparr>"
  let ?st1 = "st[f := ?g1]"
  have len: "length c = nrows (st ! f)" using Cons.prems(2) x by simp
  have s1: "setitem_ref st f name c = Inr ?st1"
    using len by (simp add: setitem_ref_def setitem_def bind_e_def)
  have at: "?st1 ! f = ?g1" using Cons.prems(1) by simp
  have "\<exists>g. assign_columns ?st1 f cs = Inr (?st1[f := g]) \<and> nrows g = nrows (?st1 ! f)
             \<and> map_of (cols g) = assigned (map_of (cols (?st1 ! f))) cs"
    using Cons.prems by (intro Cons.IH) (simp_all only: at, auto)
  then obtain g where g: "assign_columns ?st1 f cs = Inr (?st1[f := g])" "nrows g = nrows (st ! f)"
    "map_of (cols g) = assigned (map_of (cols ?g1)) cs"
    by (auto simp only: at, auto)
  show ?case
    using g s1 x by (intro exI [of _ g]) (simp add: update_conv')
qed

subsection \<open>The event rate on arbitrary cells\<close>

lemma not_older_than_own_window:
  "0 < w \<Longrightarrow> \<not> fl_less t (fl_sub t (of_py_int w))"
  by (cases t) (simp_all add: fl_sub_def of_py_int_def)

lemma advance_left_prefix:
  assumes "idx < length ts" and "idx < n" and "\<not> fl_less (ts ! idx) b"
  shows "left \<le> idx \<Longrightarrow>
         \<exists>l. advance_left_float ts b left = Inr l \<and> advance_left_float (take n ts) b left = Inr l
              \<and> left \<le> l \<and> l \<le> idx"
proof (induction "idx - left" arbitrary: left)
  case 0
  then have "left = idx" by simp
  then show ?case
    using assms
    by (subst advance_left_float.simps, subst (2) advance_left_float.simps) simp
next
  case (Suc k)
  then have lt: "left < idx" by simp
  show ?case
  proof (cases "fl_less (ts ! left) b")
    case True
    have "k = idx - Suc left" using Suc.hyps(2) by simp
    moreover have "Suc left \<le> idx" using lt by simp
    ultimately obtain l where l: "advance_left_float ts b (Suc left) = Inr l"
      "advance_left_float (take n ts) b (Suc left) = Inr l" "Suc left \<le> l" "l \<le> idx"
      using Suc.hyps(1) [of "Suc left"] by blast
    have "advance_left_float ts b left = Inr l"
      using True lt assms(1) l(1) by (subst advance_left_float.simps) simp
    moreover have "advance_left_float (take n ts) b left = Inr l"
      using True lt assms(1,2) l(2) by (subst advance_left_float.simps) simp
    ultimately show ?thesis using l(3,4) by auto
  next
    case False
    have "advance_left_float ts b left = Inr left"
      using False lt assms(1) by (subst advance_left_float.simps) simp
    moreover have "advance_left_float (take n ts) b left = Inr left"
      using False lt assms(1,2) by (subst advance_left_float.simps) simp
    ultimately show ?thesis using lt by auto
  qed
qed

lemma event_rate_loop_total:
  assumes "0 < w"
  shows "left \<le> idx \<Longrightarrow>
         \<exists>rates. event_rate_loop_float ts w idx left = Inr rates \<and> length rates = length ts - idx"
proof (induction "length ts - idx" arbitrary: idx left)
  case 0
  then show ?case by (subst event_rate_loop_float.simps) simp
next
  case (Suc k)
  then have lt: "idx < length ts" by simp
  obtain l where l: "advance_left_float ts (fl_sub (ts ! idx) (of_py_int w)) left = Inr l" "l \<le> idx"
    using advance_left_prefix [OF lt _ not_older_than_own_window [OF assms] Suc.prems, of "Suc idx"]
    by auto
  have "k = length ts - Suc idx" using Suc.hyps(2) by simp
  then obtain rates where r: "event_rate_loop_float ts w (Suc idx) l = Inr rates"
    "length rates = length ts - Suc idx"
    using Suc.hyps(1) [of "Suc idx" l] l(2) by auto
  show ?case
    using lt l(1) r assms by (subst event_rate_loop_float.simps) auto
qed

lemma event_rate_loop_prefix:
  assumes "0 < w"
  shows "left \<le> idx \<Longrightarrow> event_rate_loop_float ts w idx left = Inr rates \<Longrightarrow>
         event_rate_loop_float (take n ts) w idx left = Inr (take (n - idx) rates)"
proof (induction "length ts - idx" arbitrary: idx left rates)
  case 0
  then have "event_rate_loop_float ts w idx left = Inr []"
    by (subst event_rate_loop_float.simps) simp
  then have "rates = []" using "0.prems"(2) by simp
  then show ?case
    using 0 by (subst event_rate_loop_float.simps) (auto simp: min_le_iff_disj)
next
  case (Suc k)
  then have lt: "idx < length ts" by simp
  show ?case
  proof (cases "idx < n")
    case False
    then show ?thesis
      by (subst event_rate_loop_float.simps) (auto simp: min_le_iff_disj)
  next
    case True
    obtain l where l: "advance_left_float ts (fl_sub (ts ! idx) (of_py_int w)) left = Inr l"
      "advance_left_float (take n ts) (fl_sub (ts ! idx) (of_py_int w)) left = Inr l" "l \<le> idx"
      using advance_left_prefix [OF lt True not_older_than_own_window [OF assms] Suc.prems(1)]
      by auto
    obtain rest where rest: "event_rate_loop_float ts w (Suc idx) l = Inr rest"
      using event_rate_loop_total [OF assms, of l "Suc idx" ts] l(3) by auto
    have rates: "rates = Fin (of_int (int idx - int l + 1) / (of_int w / 1000000000)) # rest"
      using Suc.prems(2) lt l(1) rest assms
      by (subst (asm) event_rate_loop_float.simps) simp
    have "k = length ts - Suc idx" using Suc.hyps(2) by simp
    then have "event_rate_loop_float (take n ts) w (Suc idx) l = Inr (take (n - Suc idx) rest)"
      using Suc.hyps(1) [of "Suc idx" l rest] l(3) rest by simp
    moreover have "take (n - idx) rates
        = Fin (of_int (int idx - int l + 1) / (of_int w / 1000000000)) # take (n - Suc idx) rest"
    proof -
      have "n - idx = Suc (n - Suc idx)" using True by simp
      then show ?thesis using rates by simp
    qed
    ultimately show ?thesis
      using lt True l(2) assms by (subst event_rate_loop_float.simps) simp
  qed
qed

lemma rolling_event_rate_total:
  "0 < w \<Longrightarrow> \<exists>rates. rolling_event_rate_float ts w = Inr rates \<and> length rates = length ts"
  using event_rate_loop_total [of w 0 0 ts] by (simp add: rolling_event_rate_float_def)

lemma rolling_event_rate_prefix:
  "0 < w \<Longrightarrow> rolling_event_rate_float ts w = Inr rates \<Longrightarrow>
   rolling_event_rate_float (take n ts) w = Inr (take n rates)"
  using event_rate_loop_prefix [of w 0 0 ts rates n] by (simp add: rolling_event_rate_float_def)

subsection \<open>The event rate of a column\<close>

lemma is_int64_embedded:
  "is_int64 x \<Longrightarrow> x = of_py_int \<lfloor>the_fin x\<rfloor> \<and> in_int64 \<lfloor>the_fin x\<rfloor>"
proof (cases x)
  case (Fin r)
  assume "is_int64 x"
  then have r: "of_int \<lfloor>r\<rfloor> = r" "- (2 ^ 63) \<le> r" "r < 2 ^ 63"
    using Fin by (simp_all del: of_int_floor_cancel)
  have "- (2 ^ 63) \<le> \<lfloor>r\<rfloor>"
    using r(2) by (simp add: le_floor_iff)
  moreover have "\<lfloor>r\<rfloor> < 2 ^ 63"
    using r(3) by (simp add: floor_less_iff)
  ultimately show ?thesis
    using Fin r(1) by (simp add: of_py_int_def in_int64_def del: of_int_floor_cancel)
qed simp_all

lemma int64_array_embedded:
  assumes "int64_array c = Some ts"
  shows "c = map of_py_int ts" and "\<forall>t\<in>set ts. in_int64 t"
proof -
  have all: "list_all is_int64 c" and ts: "ts = map (\<lambda>x. \<lfloor>the_fin x\<rfloor>) c"
    using assms by (auto simp: int64_array_def split: if_splits)
  show "c = map of_py_int ts"
    using all is_int64_embedded unfolding ts
    by (auto simp: list_all_iff intro!: nth_equalityI)
  show "\<forall>t\<in>set ts. in_int64 t"
    using all is_int64_embedded unfolding ts by (auto simp: list_all_iff)
qed

lemma event_rate_of_column_as_float:
  assumes "list_all (\<lambda>x. \<not> (is_int64 x \<and> the_fin x < - (2 ^ 63) + 1000000000)) c"
  shows "event_rate_of_column c = rolling_event_rate_float c 1000000000"
proof (cases "int64_array c")
  case None
  then show ?thesis by (simp add: event_rate_of_column_def)
next
  case (Some ts)
  have c: "c = map of_py_int ts" and rng: "\<forall>t\<in>set ts. in_int64 t"
    using int64_array_embedded [OF Some] by simp_all
  have "- (2 ^ 63) + 1000000000 \<le> t" if "t \<in> set ts" for t
  proof -
    have "of_py_int t \<in> set c" using that c by simp
    moreover have "in_int64 t"
      using rng that by simp
    then have "real_of_int (- (2 ^ 63)) \<le> real_of_int t" "real_of_int t < real_of_int (2 ^ 63)"
      unfolding in_int64_def of_int_le_iff of_int_less_iff by simp_all
    then have "is_int64 (of_py_int t)"
      by (simp add: of_py_int_def)
    ultimately have "\<not> the_fin (of_py_int t) < - (2 ^ 63) + 1000000000"
      using assms by (auto simp: list_all_iff)
    then have "\<not> real_of_int t < real_of_int (- (2 ^ 63) + 1000000000)"
      by (simp add: of_py_int_def)
    then show ?thesis
      by (simp only: of_int_less_iff not_less)
  qed
  then have "\<forall>t\<in>set ts. in_int64 t \<and> - (2 ^ 63) + 1000000000 \<le> t"
    using rng by simp
  then have "event_rate_loop ts 1000000000 0 0
               = event_rate_loop_float (map of_py_int ts) 1000000000 0 0"
    by (intro event_rate_loop_as_float) (simp_all add: in_int64_def)
  then show ?thesis
    using Some c
    by (simp add: event_rate_of_column_def rolling_event_rate_def rolling_event_rate_float_def)
qed

lemma event_rate_of_time_column:
  assumes "times_in_range df" and "getitem df ''time_ns'' = Inr ts"
  shows "event_rate_of_column ts = rolling_event_rate_float ts 1000000000"
    and "event_rate_of_column (take n ts) = rolling_event_rate_float (take n ts) 1000000000"
proof -
  have all: "list_all (\<lambda>x. \<not> (is_int64 x \<and> the_fin x < - (2 ^ 63) + 1000000000)) ts"
    using assms by (auto simp: times_in_range_def getitem_def split: option.splits)
  then have "list_all (\<lambda>x. \<not> (is_int64 x \<and> the_fin x < - (2 ^ 63) + 1000000000)) (take n ts)"
    by (auto simp: list_all_iff dest: in_set_takeD)
  then show "event_rate_of_column (take n ts) = rolling_event_rate_float (take n ts) 1000000000"
    by (rule event_rate_of_column_as_float)
  show "event_rate_of_column ts = rolling_event_rate_float ts 1000000000"
    using all by (rule event_rate_of_column_as_float)
qed

subsection \<open>The rolling windows on a prefix\<close>

lemma take_upt_min: "take n [0..<m] = [0..<min n m]"
  by (cases "n \<le> m") (simp_all add: take_upt)

lemma map_upt_prefix:
  assumes "\<And>i. i < min n m \<Longrightarrow> f i = g i"
  shows "map f [0..<min n m] = take n (map g [0..<m])"
  using assms by (simp add: take_map take_upt_min)

lemma window_obs_prefix: "i < n \<Longrightarrow> window_obs w (take n xs) i = window_obs w xs i"
  by (simp add: window_obs_def min_def)

lemma rolling_sum_prefix: "rolling_sum (take n xs) w = take n (rolling_sum xs w)"
  unfolding rolling_sum_def length_take
  by (subst min.commute, rule map_upt_prefix) (simp add: window_obs_prefix)

lemma fillna_prefix: "fillna v (take n xs) = take n (fillna v xs)"
  by (simp add: fillna_def take_map)

lemma rolling_std_prefix: "rolling_std (take n xs) w = take n (rolling_std xs w)"
proof -
  have "map (\<lambda>i. let obs = window_obs w (take n xs) i
                 in if 2 \<le> length obs then Fin (sample_std obs) else NaN) [0..<min n (length xs)]
        = take n (map (\<lambda>i. let obs = window_obs w xs i
                 in if 2 \<le> length obs then Fin (sample_std obs) else NaN) [0..<length xs])"
    by (rule map_upt_prefix) (simp add: window_obs_prefix)
  then show ?thesis
    by (simp add: rolling_std_def fillna_prefix min.commute)
qed

lemma ffill_from_prefix: "ffill_from prev (take n xs) = take n (ffill_from prev xs)"
  by (induction xs arbitrary: prev n) (auto simp: take_Cons split: nat.splits)

lemma length_ffill_from [simp]: "length (ffill_from prev xs) = length xs"
  by (induction xs arbitrary: prev) auto

lemma pct_change_prefix: "pct_change pad (take n xs) = take n (pct_change pad xs)"
proof -
  have "map (\<lambda>i. if i = 0 then NaN else fl_sub (fl_div (take n d ! i) (take n d ! (i - 1))) (Fin 1))
            [0..<min n (length xs)]
        = take n (map (\<lambda>i. if i = 0 then NaN else fl_sub (fl_div (d ! i) (d ! (i - 1))) (Fin 1))
            [0..<length xs])" for d :: "fl list"
    by (rule map_upt_prefix) (auto simp: less_imp_diff_less)
  then show ?thesis
    by (cases pad) (simp_all add: pct_change_def ffill_from_prefix min.commute Let_def)
qed

lemma zip_with_prefix: "zip_with f (take n xs) (take n ys) = take n (zip_with f xs ys)"
  by (simp add: zip_with_def take_zip take_map)

lemma slice_to_map: "slice_to k (map f xs) = map f (slice_to k xs)"
  by (simp add: slice_to_def take_map)

lemma topk_depth_prefix:
  "topk_depth (min n m) (map (take n) sizes) k = take n (topk_depth m sizes k)"
  unfolding topk_depth_def
  by (rule map_upt_prefix) (simp add: slice_to_map comp_def)

lemma mask_dummy_prices_prefix:
  "mask_dummy_prices (map (take n) prices) side = map (take n) (mask_dummy_prices prices side)"
  by (simp add: mask_dummy_prices_def take_map comp_def)

lemma first_column_prefix:
  "first_column a = Inr c \<Longrightarrow> first_column (map (take n) a) = Inr (take n c)"
  by (cases a) (simp_all add: first_column_def)

subsection \<open>Reading a frame and its first rows\<close>

lemma getitems_columns:
  "wf_frame df \<Longrightarrow> getitems df names = Inr cs \<Longrightarrow>
   length cs = length names \<and> (\<forall>c\<in>set cs. length c = nrows df)"
  unfolding getitems_def
proof (induction names arbitrary: cs)
  case Nil
  then show ?case by simp
next
  case (Cons name names)
  then show ?case
    using getitem_length [of df name]
    by (auto split: sum.splits)
qed

lemma map_of_head_rows:
  "map_of (cols (frame_rows 0 n df)) name = map_option (take n) (map_of (cols df) name)"
  by (simp add: frame_rows_def map_of_map)

lemma getitem_head_rows:
  "getitem df name = Inr c \<Longrightarrow> getitem (frame_rows 0 n df) name = Inr (take n c)"
  by (auto simp: getitem_def map_of_head_rows split: option.splits)

lemma getitems_head_rows:
  "getitems df names = Inr cs \<Longrightarrow> getitems (frame_rows 0 n df) names = Inr (map (take n) cs)"
  unfolding getitems_def
proof (induction names arbitrary: cs)
  case Nil
  then show ?case by simp
next
  case (Cons name names)
  then show ?case
    using getitem_head_rows [of df name _ n]
    by (auto split: sum.splits)
qed

lemma nrows_head_rows [simp]: "nrows (frame_rows 0 n df) = min n (nrows df)"
  by (simp add: frame_rows_def)

lemma length_topk_depth [simp]: "length (topk_depth n sizes k) = n"
  by (simp add: topk_depth_def)

lemma length_rolling_sum [simp]: "length (rolling_sum xs w) = length xs"
  by (simp add: rolling_sum_def)

lemma length_fillna [simp]: "length (fillna v xs) = length xs"
  by (simp add: fillna_def)

lemma length_rolling_std [simp]: "length (rolling_std xs w) = length xs"
  by (simp add: rolling_std_def)

lemma length_pct_change [simp]: "length (pct_change pad xs) = length xs"
  by (simp add: pct_change_def Let_def)

lemma first_column_mask:
  "first_column a = Inr c \<Longrightarrow> \<exists>c'. first_column (mask_dummy_prices a side) = Inr c'
      \<and> length c' = length c"
  by (cases a) (auto simp: first_column_def mask_dummy_prices_def)

lemma first_column_nonempty:
  "a \<noteq> [] \<Longrightarrow> \<exists>c. first_column a = Inr c \<and> c \<in> set a"
  by (cases a) (auto simp: first_column_def)

lemma level_arrays_present:
  assumes "wf_frame df" and "has_columns df (level_columns prefix num_levels)" and "1 \<le> num_levels"
  shows "\<exists>a c. level_arrays df prefix num_levels = Inr a \<and> first_column a = Inr c
               \<and> length c = nrows df"
proof -
  obtain a where a: "getitems df (level_columns prefix num_levels) = Inr a"
    using assms(2) getitems_present by (auto simp: has_columns_def)
  then have "length a = length (level_columns prefix num_levels)" "\<forall>c\<in>set a. length c = nrows df"
    using getitems_columns [OF assms(1) a] by auto
  moreover have "length (level_columns prefix num_levels) = nat num_levels"
    by (simp add: level_columns_def)
  ultimately have "a \<noteq> []" and "\<forall>c\<in>set a. length c = nrows df"
    using assms(3) by auto
  then show ?thesis
    using a first_column_nonempty [of a]
    by (auto simp: level_arrays_def level_columns_def)
qed

lemma has_columns_append [simp]:
  "has_columns df (xs @ ys) \<longleftrightarrow> has_columns df xs \<and> has_columns df ys"
  by (simp add: has_columns_def)

lemma has_columns_Nil [simp]: "has_columns df []"
  by (simp add: has_columns_def)

lemma has_columns_Cons [simp]:
  "has_columns df (x # xs) \<longleftrightarrow> map_of (cols df) x \<noteq> None \<and> has_columns df xs"
  by (simp add: has_columns_def)

lemma getitem_column:
  "wf_frame df \<Longrightarrow> map_of (cols df) name \<noteq> None \<Longrightarrow>
   \<exists>c. getitem df name = Inr c \<and> length c = nrows df"
  using getitem_present getitem_length by blast

lemma length_align_on_index [simp]: "length (align_on_index v labels) = length labels"
  by (simp add: align_on_index_def)

lemma feature_columns_total:
  assumes "wf_frame df" and "has_columns df (feature_input_columns num_levels)"
    and "1 \<le> num_levels" and "times_in_range df"
  shows "\<exists>cs bid_sizes ask_sizes bid_prices ask_prices best_bid best_ask.
           feature_columns df num_levels topk pad = Inr cs \<and> map fst cs = derived_names
           \<and> (\<forall>(name, c) \<in> set cs. length c = nrows df)
           \<and> level_arrays df ''bid_size'' num_levels = Inr bid_sizes
           \<and> level_arrays df ''ask_size'' num_levels = Inr ask_sizes
           \<and> map_of cs ''depth_topk_bid'' = Some (topk_depth (nrows df) bid_sizes topk)
           \<and> map_of cs ''depth_topk_ask'' = Some (topk_depth (nrows df) ask_sizes topk)
           \<and> level_arrays df ''bid_price'' num_levels = Inr bid_prices
           \<and> level_arrays df ''ask_price'' num_levels = Inr ask_prices
           \<and> first_column (mask_dummy_prices bid_prices ''bid'') = Inr best_bid
           \<and> first_column (mask_dummy_prices ask_prices ''ask'') = Inr best_ask
           \<and> map_of cs ''realized_volatility''
               = Some (align_on_index
                         (rolling_std
                            (fillna (Fin 0)
                               (pct_change pad
                                  (map (\<lambda>s. fl_div s (Fin 2)) (zip_with fl_add best_bid best_ask))))
                            100)
                         (index df))"
proof -
  have idx: "length (index df) = nrows df"
    using assms(1) by (simp add: wf_frame_def)
  have hc: "has_columns df (level_columns ''bid_price'' num_levels)"
    "has_columns df (level_columns ''ask_price'' num_levels)"
    "has_columns df (level_columns ''bid_size'' num_levels)"
    "has_columns df (level_columns ''ask_size'' num_levels)"
    "map_of (cols df) ''time_ns'' \<noteq> None" "map_of (cols df) ''event_type'' \<noteq> None"
    "map_of (cols df) ''direction'' \<noteq> None" "map_of (cols df) ''size'' \<noteq> None"
    using assms(2) by (simp_all add: feature_input_columns_def)
  obtain bp cbp where bp: "level_arrays df ''bid_price'' num_levels = Inr bp"
    "first_column bp = Inr cbp" "length cbp = nrows df"
    using level_arrays_present [OF assms(1) hc(1) assms(3)] by blast
  obtain ap cap where ap: "level_arrays df ''ask_price'' num_levels = Inr ap"
    "first_column ap = Inr cap" "length cap = nrows df"
    using level_arrays_present [OF assms(1) hc(2) assms(3)] by blast
  obtain bs bs1 where bs: "level_arrays df ''bid_size'' num_levels = Inr bs"
    "first_column bs = Inr bs1" "length bs1 = nrows df"
    using level_arrays_present [OF assms(1) hc(3) assms(3)] by blast
  obtain as as1 where as: "level_arrays df ''ask_size'' num_levels = Inr as"
    "first_column as = Inr as1" "length as1 = nrows df"
    using level_arrays_present [OF assms(1) hc(4) assms(3)] by blast
  obtain bb where bb: "first_column (mask_dummy_prices bp ''bid'') = Inr bb" "length bb = nrows df"
    using first_column_mask [OF bp(2)] bp(3) by auto
  obtain ba where ba: "first_column (mask_dummy_prices ap ''ask'') = Inr ba" "length ba = nrows df"
    using first_column_mask [OF ap(2)] ap(3) by auto
  obtain ts where ts: "getitem df ''time_ns'' = Inr ts" "length ts = nrows df"
    using getitem_column [OF assms(1) hc(5)] by blast
  obtain et where et: "getitem df ''event_type'' = Inr et" "length et = nrows df"
    using getitem_column [OF assms(1) hc(6)] by blast
  obtain dir where dir: "getitem df ''direction'' = Inr dir" "length dir = nrows df"
    using getitem_column [OF assms(1) hc(7)] by blast
  obtain sz where sz: "getitem df ''size'' = Inr sz" "length sz = nrows df"
    using getitem_column [OF assms(1) hc(8)] by blast
  obtain rates where rates: "event_rate_of_column ts = Inr rates" "length rates = length ts"
    using rolling_event_rate_total [of 1000000000 ts] event_rate_of_time_column(1) [OF assms(4) ts(1)]
    by auto
  show ?thesis
    using bp ap bs as bb ba ts et dir sz rates idx
    by (simp add: feature_columns_def bind_e_def Let_def derived_names_def)
qed

lemma level_arrays_head_rows:
  "level_arrays df prefix num_levels = Inr a \<Longrightarrow>
   level_arrays (frame_rows 0 n df) prefix num_levels = Inr (map (take n) a)"
  by (simp add: level_arrays_def getitems_head_rows)

lemma align_on_index_default [simp]:
  "align_on_index v (map int [0..<length v]) = v"
  by (auto simp: align_on_index_def intro!: nth_equalityI)

lemma align_on_index_prefix:
  assumes "labels = map int [0..<m]"
  shows "take n (align_on_index v labels) = align_on_index (take n v) (take n labels)"
  unfolding assms by (auto simp: align_on_index_def take_map take_upt_min intro!: nth_equalityI)

lemma default_index_head_rows: "default_index df \<Longrightarrow> default_index (frame_rows 0 n df)"
  by (simp add: default_index_def frame_rows_def take_map take_upt_min min.commute)

lemma times_in_range_head_rows: "times_in_range df \<Longrightarrow> times_in_range (frame_rows 0 n df)"
  by (auto simp: times_in_range_def map_of_head_rows list_all_iff
      split: option.splits dest: in_set_takeD)

lemma feature_columns_head_rows:
  assumes "feature_columns df num_levels topk pad = Inr cs"
    and "default_index df" and "times_in_range df"
  shows "feature_columns (frame_rows 0 n df) num_levels topk pad
           = Inr (map (\<lambda>(name, c). (name, take n c)) cs)"
proof -
  note defs = feature_columns_def bind_e_def
  note idx = align_on_index_prefix [OF assms(2) [unfolded default_index_def], of n]
  note tir = assms(3)
  note assms = assms(1)
  obtain bp where bp: "level_arrays df ''bid_price'' num_levels = Inr bp"
    using assms by (cases "level_arrays df ''bid_price'' num_levels") (simp_all add: defs)
  obtain ap where ap: "level_arrays df ''ask_price'' num_levels = Inr ap"
    using assms bp by (cases "level_arrays df ''ask_price'' num_levels") (simp_all add: defs)
  obtain bs where bs: "level_arrays df ''bid_size'' num_levels = Inr bs"
    using assms bp ap by (cases "level_arrays df ''bid_size'' num_levels") (simp_all add: defs)
  obtain as where as: "level_arrays df ''ask_size'' num_levels = Inr as"
    using assms bp ap bs by (cases "level_arrays df ''ask_size'' num_levels") (simp_all add: defs)
  obtain bb where bb: "first_column (mask_dummy_prices bp ''bid'') = Inr bb"
    using assms bp ap bs as
    by (cases "first_column (mask_dummy_prices bp ''bid'')") (simp_all add: defs)
  obtain ba where ba: "first_column (mask_dummy_prices ap ''ask'') = Inr ba"
    using assms bp ap bs as bb
    by (cases "first_column (mask_dummy_prices ap ''ask'')") (simp_all add: defs)
  obtain bs1 where bs1: "first_column bs = Inr bs1"
    using assms bp ap bs as bb ba by (cases "first_column bs") (simp_all add: defs Let_def)
  obtain as1 where as1: "first_column as = Inr as1"
    using assms bp ap bs as bb ba bs1 by (cases "first_column as") (simp_all add: defs Let_def)
  obtain ts where ts: "getitem df ''time_ns'' = Inr ts"
    using assms bp ap bs as bb ba bs1 as1
    by (cases "getitem df ''time_ns''") (simp_all add: defs Let_def)
  obtain rates where rates: "event_rate_of_column ts = Inr rates"
    using rolling_event_rate_total [of 1000000000 ts] event_rate_of_time_column(1) [OF tir ts]
    by auto
  obtain et where et: "getitem df ''event_type'' = Inr et"
    using assms bp ap bs as bb ba bs1 as1 ts rates
    by (cases "getitem df ''event_type''") (simp_all add: defs Let_def)
  obtain dir where dir: "getitem df ''direction'' = Inr dir"
    using assms bp ap bs as bb ba bs1 as1 ts rates et
    by (cases "getitem df ''direction''") (simp_all add: defs Let_def)
  obtain sz where sz: "getitem df ''size'' = Inr sz"
    using assms bp ap bs as bb ba bs1 as1 ts rates et dir
    by (cases "getitem df ''size''") (simp_all add: defs Let_def)
  let ?h = "frame_rows 0 n df"
  have h: "level_arrays ?h ''bid_price'' num_levels = Inr (map (take n) bp)"
    "level_arrays ?h ''ask_price'' num_levels = Inr (map (take n) ap)"
    "level_arrays ?h ''bid_size'' num_levels = Inr (map (take n) bs)"
    "level_arrays ?h ''ask_size'' num_levels = Inr (map (take n) as)"
    "first_column (mask_dummy_prices (map (take n) bp) ''bid'') = Inr (take n bb)"
    "first_column (mask_dummy_prices (map (take n) ap) ''ask'') = Inr (take n ba)"
    "first_column (map (take n) bs) = Inr (take n bs1)"
    "first_column (map (take n) as) = Inr (take n as1)"
    "getitem ?h ''time_ns'' = Inr (take n ts)"
    "event_rate_of_column (take n ts) = Inr (take n rates)"
    "getitem ?h ''event_type'' = Inr (take n et)"
    "getitem ?h ''direction'' = Inr (take n dir)"
    "getitem ?h ''size'' = Inr (take n sz)"
    using bp ap bs as bb ba bs1 as1 ts et dir sz
      rates [unfolded event_rate_of_time_column(1) [OF tir ts]]
      event_rate_of_time_column(2) [OF tir ts, of n]
    by (simp_all add: level_arrays_head_rows mask_dummy_prices_prefix first_column_prefix
        getitem_head_rows rolling_event_rate_prefix)
  have hi: "index ?h = take n (index df)"
    by (simp add: frame_rows_def)
  show ?thesis
    using assms bp ap bs as bb ba bs1 as1 ts rates et dir sz h hi
    by (auto simp: defs Let_def zip_with_prefix [symmetric] rolling_sum_prefix [symmetric]
        rolling_std_prefix [symmetric] pct_change_prefix [symmetric] fillna_prefix [symmetric]
        topk_depth_prefix [symmetric] take_map idx)
qed

subsection \<open>The frame that compute\_features returns\<close>

lemma derived_names_distinct: "distinct derived_names"
  by (simp add: derived_names_def)

lemma compute_features_result:
  assumes "d < length st" and "wf_frame (st ! d)"
    and "has_columns (st ! d) (feature_input_columns num_levels)" and "1 \<le> num_levels"
    and "times_in_range (st ! d)"
  shows "\<exists>cs g bid_sizes ask_sizes.
           feature_columns (st ! d) num_levels topk pad = Inr cs \<and> map fst cs = derived_names
           \<and> (\<forall>(name, c) \<in> set cs. length c = nrows (st ! d))
           \<and> compute_features st d num_levels topk pad = Inr (st @ [g], length st)
           \<and> nrows g = nrows (st ! d)
           \<and> map_of (cols g) = assigned (map_of (cols (st ! d))) cs
           \<and> level_arrays (st ! d) ''bid_size'' num_levels = Inr bid_sizes
           \<and> level_arrays (st ! d) ''ask_size'' num_levels = Inr ask_sizes
           \<and> map_of cs ''depth_topk_bid'' = Some (topk_depth (nrows (st ! d)) bid_sizes topk)
           \<and> map_of cs ''depth_topk_ask'' = Some (topk_depth (nrows (st ! d)) ask_sizes topk)"
proof -
  obtain cs bid_sizes ask_sizes where cs:
    "feature_columns (st ! d) num_levels topk pad = Inr cs" "map fst cs = derived_names"
    "\<forall>(name, c) \<in> set cs. length c = nrows (st ! d)"
    "level_arrays (st ! d) ''bid_size'' num_levels = Inr bid_sizes"
    "level_arrays (st ! d) ''ask_size'' num_levels = Inr ask_sizes"
    "map_of cs ''depth_topk_bid'' = Some (topk_depth (nrows (st ! d)) bid_sizes topk)"
    "map_of cs ''depth_topk_ask'' = Some (topk_depth (nrows (st ! d)) ask_sizes topk)"
    using feature_columns_total [OF assms(2-5), of topk pad] by (elim exE conjE) (rule that)
  let ?st1 = "st @ [st ! d]"
  let ?f = "length st"
  have at: "?st1 ! ?f = st ! d" by simp
  have "\<exists>g. assign_columns ?st1 ?f cs = Inr (?st1[?f := g]) \<and> nrows g = nrows (?st1 ! ?f)
             \<and> map_of (cols g) = assigned (map_of (cols (?st1 ! ?f))) cs"
    using cs(3) by (intro assign_columns_result) (simp_all only: at, simp)
  then obtain g where g: "assign_columns ?st1 ?f cs = Inr (st @ [g])" "nrows g = nrows (st ! d)"
    "map_of (cols g) = assigned (map_of (cols (st ! d))) cs"
    by (auto simp only: at, auto)
  have "compute_features st d num_levels topk pad = Inr (st @ [g], length st)"
    using cs(1) g(1) by (simp add: compute_features_def copy_frame_def bind_e_def)
  then show ?thesis
    using cs g(2,3) by blast
qed

lemma feature_column_derived:
  assumes "d < length st" and "wf_frame (st ! d)"
    and "has_columns (st ! d) (feature_input_columns num_levels)" and "1 \<le> num_levels"
    and "times_in_range (st ! d)"
    and "name \<in> set derived_names"
  shows "\<exists>cs c. feature_columns (st ! d) num_levels topk pad = Inr cs \<and> map_of cs name = Some c
             \<and> length c = nrows (st ! d)
             \<and> feature_column st d num_levels topk pad name = Inr c"
proof -
  obtain cs g where r:
    "feature_columns (st ! d) num_levels topk pad = Inr cs" "map fst cs = derived_names"
    "\<forall>(name, c) \<in> set cs. length c = nrows (st ! d)"
    "compute_features st d num_levels topk pad = Inr (st @ [g], length st)"
    "map_of (cols g) = assigned (map_of (cols (st ! d))) cs"
    using compute_features_result [OF assms(1-5), of topk pad] by blast
  have dist: "distinct (map fst cs)"
    using r(2) derived_names_distinct by simp
  obtain c where c: "(name, c) \<in> set cs"
    using assms(6) r(2) by (metis (no_types, opaque_lifting) fst_conv imageE list.set_map prod.collapse)
  then have "map_of cs name = Some c" "length c = nrows (st ! d)"
    using dist r(3) by auto
  moreover have "map_of (cols g) name = Some c"
    using r(5) assigned_distinct [OF dist c] by simp
  ultimately show ?thesis
    using r(1,4) by (simp add: feature_column_def bind_e_def getitem_def)
qed

lemma has_columns_head_rows:
  assumes "frame_rows 0 n a = frame_rows 0 n b" and "has_columns a names"
  shows "has_columns b names"
proof -
  have "map_of (cols b) name \<noteq> None" if "map_of (cols a) name \<noteq> None" for name
  proof -
    have "map_option (take n) (map_of (cols b) name) = map_option (take n) (map_of (cols a) name)"
      using assms(1) map_of_head_rows [of n a name] map_of_head_rows [of n b name] by simp
    then show ?thesis using that by auto
  qed
  then show ?thesis
    using assms(2) by (auto simp: has_columns_def list_all_iff)
qed

text \<open>
  On frames with the default index, whose timestamps are out of the reach of the int64
  wrap-around, \<open>compute_features\<close> is causal. Take two such well-formed input frames that hold
  the columns it reads and whose rows \<open>0 .. i\<close> are the same, whatever their later rows
  are. Both calls return, and every derived column has the same value at row \<open>i\<close> in the two
  results.
\<close>

lemma compute_features_causal_on_default_index:
  assumes "d < length st" and "d' < length st'"
    and "wf_frame (st ! d)" and "wf_frame (st' ! d')"
    and "default_index (st ! d)" and "default_index (st' ! d')"
    and "times_in_range (st ! d)" and "times_in_range (st' ! d')"
    and "has_columns (st ! d) (feature_input_columns num_levels)" and "1 \<le> num_levels"
    and "i < nrows (st ! d)" and "i < nrows (st' ! d')"
    and "frame_rows 0 (Suc i) (st ! d) = frame_rows 0 (Suc i) (st' ! d')"
    and "name \<in> set derived_names"
  shows "\<exists>c c'. feature_column st d num_levels topk pad name = Inr c
               \<and> feature_column st' d' num_levels topk pad name = Inr c'
               \<and> i < length c \<and> i < length c' \<and> c ! i = c' ! i"
proof -
  have hc': "has_columns (st' ! d') (feature_input_columns num_levels)"
    using has_columns_head_rows [OF assms(13,9)] .
  obtain cs c where c: "feature_columns (st ! d) num_levels topk pad = Inr cs"
    "map_of cs name = Some c" "length c = nrows (st ! d)"
    "feature_column st d num_levels topk pad name = Inr c"
    using feature_column_derived [OF assms(1,3,9,10,7,14), of topk pad] by blast
  obtain cs' c' where c': "feature_columns (st' ! d') num_levels topk pad = Inr cs'"
    "map_of cs' name = Some c'" "length c' = nrows (st' ! d')"
    "feature_column st' d' num_levels topk pad name = Inr c'"
    using feature_column_derived [OF assms(2,4) hc' assms(10,8,14), of topk pad] by blast
  let ?take = "\<lambda>(name, c :: column). (name, take (Suc i) c)"
  have "Inr (map ?take cs) = (Inr (map ?take cs') :: error + (string \<times> column) list)"
    using feature_columns_head_rows [OF c(1) assms(5,7), of "Suc i"]
      feature_columns_head_rows [OF c'(1) assms(6,8), of "Suc i"] assms(13) by simp
  then have "map_of (map ?take cs) name = map_of (map ?take cs') name"
    by simp
  then have "take (Suc i) c = take (Suc i) c'"
    using c(2) c'(2) by (simp add: map_of_map)
  then have "c ! i = c' ! i"
    by (metis lessI nth_take)
  then show ?thesis
    using c(3,4) c'(3,4) assms(11,12) by simp
qed

lemma aligned4_ok:
  "wf_frame aligned4" "has_columns aligned4 (feature_input_columns 1)"
  "times_in_range aligned4" "default_index aligned4"
  by (simp_all add: wf_frame_def aligned4_def feature_input_columns_def level_columns_def
      str_int_def digits.simps digit_char_def times_in_range_def default_index_def upt_rec)

text \<open>
  The frames \<open>aligned4\<close> and \<open>aligned4_later\<close> are two such frames with the same rows 0 and 1:
  every derived column has the same value at row 1 in the two results.
\<close>

lemma compute_features_causal_example:
  assumes "name \<in> set derived_names"
  shows "\<exists>c c'. feature_column [aligned4] 0 1 1 pad name = Inr c
               \<and> feature_column [aligned4_later] 0 1 1 pad name = Inr c'
               \<and> c ! 1 = c' ! 1"
proof -
  have a: "0 < length [aligned4]" "0 < length [aligned4_later]"
    "wf_frame ([aligned4] ! 0)" "wf_frame ([aligned4_later] ! 0)"
    "default_index ([aligned4] ! 0)" "default_index ([aligned4_later] ! 0)"
    "times_in_range ([aligned4] ! 0)" "times_in_range ([aligned4_later] ! 0)"
    "has_columns ([aligned4] ! 0) (feature_input_columns 1)" "(1::int) \<le> 1"
    "1 < nrows ([aligned4] ! 0)" "1 < nrows ([aligned4_later] ! 0)"
    "frame_rows 0 (Suc 1) ([aligned4] ! 0) = frame_rows 0 (Suc 1) ([aligned4_later] ! 0)"
    using aligned4_ok
    by (simp_all add: wf_frame_def aligned4_def aligned4_later_def frame_rows_def
        default_index_def times_in_range_def upt_rec)
  show ?thesis
    using compute_features_causal_on_default_index [OF a assms, of 1 pad] by blast
qed

text \<open>
  Without the condition on the timestamps \<open>compute_features\<close> need not return: on
  \<open>earliest3\<close> the bound of the event rate wraps around and the left pointer runs past the
  end of the array.
\<close>

lemma compute_features_raises_at_int64_minimum:
  "wf_frame earliest3 \<and> has_columns earliest3 (feature_input_columns 1)
   \<and> default_index earliest3
   \<and> compute_features [earliest3] 0 1 1 pad = Inl IndexError"
proof -
  note names = str_int_def digits.simps digit_char_def
  have ok: "wf_frame earliest3" "has_columns earliest3 (feature_input_columns 1)"
    "default_index earliest3"
    by (simp_all add: wf_frame_def earliest3_def feature_input_columns_def level_columns_def
        names default_index_def upt_rec)
  have ts: "int64_array [Fin (- 9223372036854775808), Fin (- 9223372036854775807), Fin 0]
              = Some [- 9223372036854775808, - 9223372036854775807, 0]"
    by (simp add: int64_array_def)
  have "event_rate_of_column
          [Fin (- 9223372036854775808), Fin (- 9223372036854775807), Fin 0] = Inl IndexError"
    unfolding event_rate_of_column_def ts
    by (simp add: rolling_event_rate_def event_rate_loop.simps advance_left.simps
        in_int64_def wrap64_def)
  then have "feature_columns earliest3 1 1 pad = Inl IndexError"
    by (simp add: feature_columns_def bind_e_def Let_def level_arrays_def getitems_def
        getitem_def earliest3_def names mask_dummy_prices_def first_column_def)
  then have "compute_features [earliest3] 0 1 1 pad = Inl IndexError"
    by (simp add: compute_features_def bind_e_def)
  then show ?thesis
    using ok by simp
qed

subsection \<open>The realized volatility on a frame whose index is not the default one\<close>

lemma realized_volatility_column:
  assumes "d < length st" and "wf_frame (st ! d)"
    and "has_columns (st ! d) (feature_input_columns num_levels)" and "1 \<le> num_levels"
    and "times_in_range (st ! d)"
    and "level_arrays (st ! d) ''bid_price'' num_levels = Inr bid_prices"
    and "level_arrays (st ! d) ''ask_price'' num_levels = Inr ask_prices"
    and "first_column (mask_dummy_prices bid_prices ''bid'') = Inr best_bid"
    and "first_column (mask_dummy_prices ask_prices ''ask'') = Inr best_ask"
  shows "feature_column st d num_levels topk pad ''realized_volatility''
           = Inr (align_on_index
                    (rolling_std
                       (fillna (Fin 0)
                          (pct_change pad
                             (map (\<lambda>s. fl_div s (Fin 2)) (zip_with fl_add best_bid best_ask))))
                       100)
                    (index (st ! d)))"
proof -
  obtain cs bp ap bb ba where cs:
    "feature_columns (st ! d) num_levels topk pad = Inr cs"
    "level_arrays (st ! d) ''bid_price'' num_levels = Inr bp"
    "level_arrays (st ! d) ''ask_price'' num_levels = Inr ap"
    "first_column (mask_dummy_prices bp ''bid'') = Inr bb"
    "first_column (mask_dummy_prices ap ''ask'') = Inr ba"
    "map_of cs ''realized_volatility''
       = Some (align_on_index
                 (rolling_std
                    (fillna (Fin 0)
                       (pct_change pad (map (\<lambda>s. fl_div s (Fin 2)) (zip_with fl_add bb ba))))
                    100)
                 (index (st ! d)))"
    using feature_columns_total [OF assms(2-5), of topk pad] by (elim exE conjE) (rule that)
  have eq: "bb = best_bid" "ba = best_ask"
    using cs(2-5) assms(6-9) by simp_all
  have "''realized_volatility'' \<in> set derived_names"
    by (simp add: derived_names_def)
  from feature_column_derived [OF assms(1-5) this, of topk pad]
  obtain cs' c where c: "feature_columns (st ! d) num_levels topk pad = Inr cs'"
    "map_of cs' ''realized_volatility'' = Some c"
    "feature_column st d num_levels topk pad ''realized_volatility'' = Inr c"
    by (elim exE conjE) (rule that)
  have "cs' = cs"
    using c(1) cs(1) by simp
  then show ?thesis
    using c(2,3) cs(6) eq by simp
qed

lemma sliced3_ok:
  "wf_frame sliced3" "has_columns sliced3 (feature_input_columns 1)" "times_in_range sliced3"
  "wf_frame sliced3_later" "has_columns sliced3_later (feature_input_columns 1)"
  "times_in_range sliced3_later"
  by (simp_all add: wf_frame_def sliced3_def sliced3_later_def feature_input_columns_def
      level_columns_def str_int_def digits.simps digit_char_def times_in_range_def)

lemma sample_std_values:
  "sample_std [0, 1] = sqrt (1 / 2)" "sample_std [0, 1, 1 / 2] = 1 / 2"
  "sample_std [0, 1, 2] = 1"
proof -
  show "sample_std [0, 1] = sqrt (1 / 2)"
    by (simp add: sample_std_def power2_eq_square)
  have "sample_std [0, 1, 1 / 2] = sqrt ((1 / 2)\<^sup>2)"
    unfolding sample_std_def by (simp add: power2_eq_square)
  then show "sample_std [0, 1, 1 / 2] = 1 / 2"
    by (simp only: real_sqrt_abs abs_divide abs_one abs_numeral)
  show "sample_std [0, 1, 2] = 1"
    by (simp add: sample_std_def power2_eq_square)
qed

lemma realized_volatility_of_mid:
  "rolling_std (fillna (Fin 0) (pct_change pad [Fin 100, Fin 200, Fin 300])) 100
     = [Fin 0, Fin (sqrt (1 / 2)), Fin (1 / 2)]"
  "rolling_std (fillna (Fin 0) (pct_change pad [Fin 100, Fin 200, Fin 600])) 100
     = [Fin 0, Fin (sqrt (1 / 2)), Fin 1]"
  by (simp_all add: rolling_std_def fillna_def pct_change_def window_obs_def upt_rec
      fl_sub_def sample_std_values Let_def)

text \<open>
  C2. \<open>compute_features\<close> is not causal on a frame whose index is not the default one. The
  realized volatility is computed on \<open>pd.Series(mid)\<close>, whose index is \<open>0 .. n-1\<close>, and the
  assignment aligns it on the labels of the frame. The frames \<open>sliced3\<close> and \<open>sliced3_later\<close>
  have the index \<open>1, 2, 3\<close> and the same rows 0 and 1; their mid prices are 100, 200, 300 and
  100, 200, 600. The row at position 1 has the label 2 and receives the volatility computed
  at position 2, which reads the mid price of the later row: it is 1/2 in the one result
  and 1 in the other, with either behaviour of \<open>pct_change\<close>.
\<close>

theorem C2_realized_volatility_reads_later_row:
  "frame_rows 0 2 sliced3 = frame_rows 0 2 sliced3_later
   \<and> feature_column [sliced3] 0 1 1 pad ''realized_volatility''
       = Inr [Fin (sqrt (1 / 2)), Fin (1 / 2), NaN]
   \<and> feature_column [sliced3_later] 0 1 1 pad ''realized_volatility''
       = Inr [Fin (sqrt (1 / 2)), Fin 1, NaN]"
proof -
  note names = str_int_def digits.simps digit_char_def
  have rows: "frame_rows 0 2 sliced3 = frame_rows 0 2 sliced3_later"
    by (simp add: frame_rows_def sliced3_def sliced3_later_def)
  have a: "0 < length [sliced3]" "wf_frame ([sliced3] ! 0)"
    "has_columns ([sliced3] ! 0) (feature_input_columns 1)" "(1::int) \<le> 1"
    "times_in_range ([sliced3] ! 0)"
    using sliced3_ok by simp_all
  have b: "0 < length [sliced3_later]" "wf_frame ([sliced3_later] ! 0)"
    "has_columns ([sliced3_later] ! 0) (feature_input_columns 1)" "(1::int) \<le> 1"
    "times_in_range ([sliced3_later] ! 0)"
    using sliced3_ok by simp_all
  have pa: "level_arrays ([sliced3] ! 0) ''bid_price'' 1 = Inr [ [Fin 99, Fin 199, Fin 299] ]"
    "level_arrays ([sliced3] ! 0) ''ask_price'' 1 = Inr [ [Fin 101, Fin 201, Fin 301] ]"
    "first_column (mask_dummy_prices [ [Fin 99, Fin 199, Fin 299] ] ''bid'')
       = Inr [Fin 99, Fin 199, Fin 299]"
    "first_column (mask_dummy_prices [ [Fin 101, Fin 201, Fin 301] ] ''ask'')
       = Inr [Fin 101, Fin 201, Fin 301]"
    by (simp_all add: level_arrays_def getitems_def getitem_def sliced3_def names
        mask_dummy_prices_def first_column_def of_py_int_def DUMMY_BID_def DUMMY_ASK_def)
  have pb: "level_arrays ([sliced3_later] ! 0) ''bid_price'' 1 = Inr [ [Fin 99, Fin 199, Fin 599] ]"
    "level_arrays ([sliced3_later] ! 0) ''ask_price'' 1 = Inr [ [Fin 101, Fin 201, Fin 601] ]"
    "first_column (mask_dummy_prices [ [Fin 99, Fin 199, Fin 599] ] ''bid'')
       = Inr [Fin 99, Fin 199, Fin 599]"
    "first_column (mask_dummy_prices [ [Fin 101, Fin 201, Fin 601] ] ''ask'')
       = Inr [Fin 101, Fin 201, Fin 601]"
    by (simp_all add: level_arrays_def getitems_def getitem_def sliced3_later_def names
        mask_dummy_prices_def first_column_def of_py_int_def DUMMY_BID_def DUMMY_ASK_def)
  have ma: "map (\<lambda>s. fl_div s (Fin 2))
              (zip_with fl_add [Fin 99, Fin 199, Fin 299] [Fin 101, Fin 201, Fin 301])
            = [Fin 100, Fin 200, Fin 300]"
    by (simp add: zip_with_def)
  have mb: "map (\<lambda>s. fl_div s (Fin 2))
              (zip_with fl_add [Fin 99, Fin 199, Fin 599] [Fin 101, Fin 201, Fin 601])
            = [Fin 100, Fin 200, Fin 600]"
    by (simp add: zip_with_def)
  have ia: "index ([sliced3] ! 0) = [1, 2, 3]" and ib: "index ([sliced3_later] ! 0) = [1, 2, 3]"
    by (simp_all add: sliced3_def sliced3_later_def)
  have al: "align_on_index [x0, x1, x2] [1, 2, 3] = [x1, x2, NaN]" for x0 x1 x2 :: fl
    by (simp add: align_on_index_def)
  have ca: "feature_column [sliced3] 0 1 1 pad ''realized_volatility''
              = Inr [Fin (sqrt (1 / 2)), Fin (1 / 2), NaN]"
    by (simp only: realized_volatility_column [OF a pa, of 1 pad] ma ia
        realized_volatility_of_mid al)
  have cb: "feature_column [sliced3_later] 0 1 1 pad ''realized_volatility''
              = Inr [Fin (sqrt (1 / 2)), Fin 1, NaN]"
    by (simp only: realized_volatility_column [OF b pb, of 1 pad] mb ib
        realized_volatility_of_mid al)
  show ?thesis
    using rows ca cb by simp
qed

subsection \<open>The depth aggregates\<close>

lemma depth_columns_sum_stored_sizes:
  assumes "d < length st" and "wf_frame (st ! d)"
    and "has_columns (st ! d) (feature_input_columns num_levels)" and "1 \<le> num_levels"
    and "times_in_range (st ! d)"
  shows "\<exists>bid_sizes ask_sizes.
           level_arrays (st ! d) ''bid_size'' num_levels = Inr bid_sizes
           \<and> level_arrays (st ! d) ''ask_size'' num_levels = Inr ask_sizes
           \<and> feature_column st d num_levels topk pad ''depth_topk_bid''
               = Inr (topk_depth (nrows (st ! d)) bid_sizes topk)
           \<and> feature_column st d num_levels topk pad ''depth_topk_ask''
               = Inr (topk_depth (nrows (st ! d)) ask_sizes topk)"
proof -
  obtain cs g bid_sizes ask_sizes where r:
    "feature_columns (st ! d) num_levels topk pad = Inr cs"
    "level_arrays (st ! d) ''bid_size'' num_levels = Inr bid_sizes"
    "level_arrays (st ! d) ''ask_size'' num_levels = Inr ask_sizes"
    "map_of cs ''depth_topk_bid'' = Some (topk_depth (nrows (st ! d)) bid_sizes topk)"
    "map_of cs ''depth_topk_ask'' = Some (topk_depth (nrows (st ! d)) ask_sizes topk)"
    using compute_features_result [OF assms, of topk pad] by (elim exE conjE) (rule that)
  have names: "''depth_topk_bid'' \<in> set derived_names" "''depth_topk_ask'' \<in> set derived_names"
    by (simp_all add: derived_names_def)
  have "feature_column st d num_levels topk pad ''depth_topk_bid''
          = Inr (topk_depth (nrows (st ! d)) bid_sizes topk)"
    using feature_column_derived [OF assms names(1), of topk pad] r(1,4) by auto
  moreover have "feature_column st d num_levels topk pad ''depth_topk_ask''
          = Inr (topk_depth (nrows (st ! d)) ask_sizes topk)"
    using feature_column_derived [OF assms names(2), of topk pad] r(1,5) by auto
  ultimately show ?thesis
    using r(2,3) by blast
qed

text \<open>
  C4. The depth aggregates are the sums of the stored sizes of the top levels, whatever the
  prices of those levels are (the lemma above): the sizes are never masked, and \<open>nansum\<close>
  skips nothing in them. In the third row of \<open>aligned4\<close> the only bid level has the sentinel
  price and a stored size of 5, and \<open>depth_topk_bid\<close> is 5 there, not 0.
\<close>

theorem C4_depth_counts_sentinel_priced_level:
  "getitem aligned4 ''bid_price_1''
     = Inr [Fin 1000000, Fin 1000300, of_py_int DUMMY_BID, Fin 1000100]
   \<and> getitem aligned4 ''bid_size_1'' = Inr [Fin 100, Fin 100, Fin 5, Fin 20]
   \<and> feature_column [aligned4] 0 1 1 True ''depth_topk_bid''
       = Inr [Fin 100, Fin 100, Fin 5, Fin 20]
   \<and> feature_column [aligned4] 0 1 1 False ''depth_topk_bid''
       = Inr [Fin 100, Fin 100, Fin 5, Fin 20]"
proof -
  have a: "0 < length [aligned4]" "wf_frame ([aligned4] ! 0)"
    "has_columns ([aligned4] ! 0) (feature_input_columns 1)" "(1::int) \<le> 1"
    "times_in_range ([aligned4] ! 0)"
    using aligned4_ok by simp_all
  have bs: "level_arrays ([aligned4] ! 0) ''bid_size'' 1 = Inr [ [Fin 100, Fin 100, Fin 5, Fin 20] ]"
    by (simp add: level_arrays_def getitems_def getitem_def aligned4_def str_int_def
        digits.simps digit_char_def)
  have depth: "topk_depth (nrows ([aligned4] ! 0)) [ [Fin 100, Fin 100, Fin 5, Fin 20] ] 1
                 = [Fin 100, Fin 100, Fin 5, Fin 20]"
    by (simp add: topk_depth_def aligned4_def slice_to_def nansum_def upt_rec)
  have "feature_column [aligned4] 0 1 1 pad ''depth_topk_bid''
          = Inr [Fin 100, Fin 100, Fin 5, Fin 20]" for pad
    using depth_columns_sum_stored_sizes [OF a, of 1 pad] bs depth by auto
  then show ?thesis
    by (simp add: getitem_def aligned4_def of_py_int_def DUMMY_BID_def)
qed


subsection \<open>Both steps only add columns\<close>

lemma dom_horizon_update:
  "dom (horizon_update mid spread m h)
     = dom m \<union> {''raw_move_H'' @ str_int h, ''label_H'' @ str_int h}"
  unfolding horizon_update_def by (simp only: dom_fun_upd) auto

lemma label_names_snoc:
  "set (label_names (hs @ [h]))
     = set (label_names hs) \<union> {''raw_move_H'' @ str_int h, ''label_H'' @ str_int h}"
  by (simp add: label_names_def)

lemma dom_horizon_updates:
  "dom (foldl (horizon_update mid spread) m hs) = dom m \<union> set (label_names hs)"
proof (induction hs rule: rev_induct)
  case Nil
  then show ?case by (simp add: label_names_def)
next
  case (snoc h hs)
  have "dom (foldl (horizon_update mid spread) m (hs @ [h]))
          = dom (foldl (horizon_update mid spread) m hs)
            \<union> {''raw_move_H'' @ str_int h, ''label_H'' @ str_int h}"
    by (simp add: dom_horizon_update)
  then show ?case
    unfolding snoc.IH label_names_snoc by blast
qed

lemma other_than_label_names:
  "name \<notin> set (label_names hs) \<Longrightarrow>
   \<forall>h\<in>set hs. name \<noteq> ''raw_move_H'' @ str_int h \<and> name \<noteq> ''label_H'' @ str_int h"
  by (auto simp: label_names_def)

lemma compute_features_additive:
  assumes "d < length st" and "wf_frame (st ! d)"
    and "has_columns (st ! d) (feature_input_columns num_levels)" and "1 \<le> num_levels"
    and "times_in_range (st ! d)"
  shows "\<exists>st' r. compute_features st d num_levels topk pad = Inr (st', r)
           \<and> take (length st) st' = st \<and> r = length st \<and> length st' = Suc (length st)
           \<and> nrows (st' ! r) = nrows (st ! d)
           \<and> (\<forall>name. name \<notin> set derived_names \<longrightarrow>
                 map_of (cols (st' ! r)) name = map_of (cols (st ! d)) name)
           \<and> fst ` set (cols (st' ! r)) = fst ` set (cols (st ! d)) \<union> set derived_names"
proof -
  obtain cs g where r: "map fst cs = derived_names"
    "compute_features st d num_levels topk pad = Inr (st @ [g], length st)"
    "nrows g = nrows (st ! d)" "map_of (cols g) = assigned (map_of (cols (st ! d))) cs"
    using compute_features_result [OF assms, of topk pad] by (elim exE conjE) (rule that)
  have keys: "fst ` set cs = set derived_names"
    using r(1) by (metis list.set_map)
  have "map_of (cols g) name = map_of (cols (st ! d)) name" if "name \<notin> set derived_names" for name
    using that r(4) keys by (simp add: assigned_other)
  moreover have "fst ` set (cols g) = fst ` set (cols (st ! d)) \<union> set derived_names"
  proof -
    have "fst ` set (cols g) = dom (assigned (map_of (cols (st ! d))) cs)"
      using r(4) dom_map_of_conv_image_fst [of "cols g"] by simp
    then show ?thesis
      unfolding dom_assigned keys by (simp add: dom_map_of_conv_image_fst)
  qed
  ultimately show ?thesis
    using r(2,3) by simp
qed

lemma generate_labels_additive:
  assumes "d < length st" and "wf_frame (st ! d)"
    and "has_columns (st ! d) [''mid'', ''spread'']"
  shows "\<exists>st' r. generate_labels st d horizons = Inr (st', r)
           \<and> take (length st) st' = st \<and> r = length st \<and> length st' = Suc (length st)
           \<and> nrows (st' ! r) = nrows (st ! d)
           \<and> (\<forall>name. name \<notin> set (label_names horizons) \<longrightarrow>
                 map_of (cols (st' ! r)) name = map_of (cols (st ! d)) name)
           \<and> fst ` set (cols (st' ! r)) = fst ` set (cols (st ! d)) \<union> set (label_names horizons)"
proof -
  obtain mid spread g where r:
    "generate_labels st d horizons = Inr (st @ [g], length st)" "nrows g = nrows (st ! d)"
    "map_of (cols g) = foldl (horizon_update mid spread) (map_of (cols (st ! d))) horizons"
    using generate_labels_result [OF assms, of horizons] by blast
  have "map_of (cols g) name = map_of (cols (st ! d)) name"
    if "name \<notin> set (label_names horizons)" for name
    using r(3) foldl_horizon_update_other [OF other_than_label_names [OF that]] by simp
  moreover have "fst ` set (cols g) = fst ` set (cols (st ! d)) \<union> set (label_names horizons)"
  proof -
    have "fst ` set (cols g)
            = dom (foldl (horizon_update mid spread) (map_of (cols (st ! d))) horizons)"
      using r(3) dom_map_of_conv_image_fst [of "cols g"] by simp
    then show ?thesis
      unfolding dom_horizon_updates by (simp add: dom_map_of_conv_image_fst)
  qed
  ultimately show ?thesis
    using r(1,2) by simp
qed

text \<open>
  C10, as the code has it. On a well-formed input frame with the columns it reads (for
  \<open>compute_features\<close>, with timestamps out of the reach of the int64 wrap-around, where the
  event rate raises no IndexError), each of \<open>compute_features\<close> and \<open>generate_labels\<close>
  returns a new frame: the store keeps every frame it had, the caller's among them, and the
  result is a fresh one. The result has the same row count, every column whose name is not
  one of the names the function assigns has its input values, and the column names of the
  result are those of the input together with the assigned names. An input column that
  already has an assigned name is replaced.
\<close>

theorem C10_additive_outside_assigned_names:
  "(d < length st \<and> wf_frame (st ! d)
      \<and> has_columns (st ! d) (feature_input_columns num_levels) \<and> 1 \<le> num_levels
      \<and> times_in_range (st ! d) \<longrightarrow>
      (\<exists>st' r. compute_features st d num_levels topk pad = Inr (st', r)
         \<and> take (length st) st' = st \<and> r = length st \<and> length st' = Suc (length st)
         \<and> nrows (st' ! r) = nrows (st ! d)
         \<and> (\<forall>name. name \<notin> set derived_names \<longrightarrow>
               map_of (cols (st' ! r)) name = map_of (cols (st ! d)) name)
         \<and> fst ` set (cols (st' ! r)) = fst ` set (cols (st ! d)) \<union> set derived_names))
   \<and> (e < length su \<and> wf_frame (su ! e) \<and> has_columns (su ! e) [''mid'', ''spread''] \<longrightarrow>
      (\<exists>su' r. generate_labels su e horizons = Inr (su', r)
         \<and> take (length su) su' = su \<and> r = length su \<and> length su' = Suc (length su)
         \<and> nrows (su' ! r) = nrows (su ! e)
         \<and> (\<forall>name. name \<notin> set (label_names horizons) \<longrightarrow>
               map_of (cols (su' ! r)) name = map_of (cols (su ! e)) name)
         \<and> fst ` set (cols (su' ! r))
             = fst ` set (cols (su ! e)) \<union> set (label_names horizons)))"
  using compute_features_additive [of d st num_levels topk pad]
    generate_labels_additive [of e su horizons]
  by blast

text \<open>
  An input column with an assigned name does not keep its values: labelling a frame
  that already holds \<open>label_H1\<close> replaces the values of that input column.
\<close>

theorem C10_existing_label_column_replaced:
  "getitem relabel_input ''label_H1'' = Inr [Fin 0, Fin 0, Fin 0]
   \<and> labelled_column [relabel_input] 0 [1] ''label_H1'' = Inr [Fin 1, Fin 1, Fin 0]"
  by (simp add: labelled_column_def generate_labels_def copy_frame_def label_step_def
      bind_e_def getitem_def setitem_ref_def setitem_def relabel_input_def str_int_1
      raw_move_of_def labels_of_def shift_def zip_with_def label_of_def fl_sub_def
      fl_maximum_def)

theorem C10_additive_witness:
  "(0 < length [aligned4] \<and> wf_frame ([aligned4] ! 0)
      \<and> has_columns ([aligned4] ! 0) (feature_input_columns 1) \<and> (1::int) \<le> 1
      \<and> times_in_range ([aligned4] ! 0))
   \<and> (\<exists>st' r. compute_features [aligned4] 0 1 1 True = Inr (st', r)
         \<and> take (length [aligned4]) st' = [aligned4] \<and> r = length [aligned4]
         \<and> length st' = Suc (length [aligned4])
         \<and> nrows (st' ! r) = nrows ([aligned4] ! 0)
         \<and> (\<forall>name. name \<notin> set derived_names \<longrightarrow>
               map_of (cols (st' ! r)) name = map_of (cols ([aligned4] ! 0)) name)
         \<and> fst ` set (cols (st' ! r)) = fst ` set (cols ([aligned4] ! 0)) \<union> set derived_names)
   \<and> (0 < length [labels_input] \<and> wf_frame ([labels_input] ! 0)
      \<and> has_columns ([labels_input] ! 0) [''mid'', ''spread''])
   \<and> (\<exists>su' r. generate_labels [labels_input] 0 [1, 5] = Inr (su', r)
         \<and> take (length [labels_input]) su' = [labels_input] \<and> r = length [labels_input]
         \<and> length su' = Suc (length [labels_input])
         \<and> nrows (su' ! r) = nrows ([labels_input] ! 0)
         \<and> (\<forall>name. name \<notin> set (label_names [1, 5]) \<longrightarrow>
               map_of (cols (su' ! r)) name = map_of (cols ([labels_input] ! 0)) name)
         \<and> fst ` set (cols (su' ! r))
             = fst ` set (cols ([labels_input] ! 0)) \<union> set (label_names [1, 5]))"
proof -
  have a: "0 < length [aligned4] \<and> wf_frame ([aligned4] ! 0)
      \<and> has_columns ([aligned4] ! 0) (feature_input_columns 1) \<and> (1::int) \<le> 1
      \<and> times_in_range ([aligned4] ! 0)"
    using aligned4_ok by simp
  have b: "0 < length [labels_input] \<and> wf_frame ([labels_input] ! 0)
      \<and> has_columns ([labels_input] ! 0) [''mid'', ''spread'']"
    by (simp add: wf_frame_def labels_input_def)
  note t = C10_additive_outside_assigned_names
             [of 0 "[aligned4]" 1 1 True 0 "[labels_input]" "[1, 5]"]
  note c1 = mp [OF conjunct1 [OF t] a]
  note c2 = mp [OF conjunct2 [OF t] b]
  show ?thesis
    by (rule conjI [OF a conjI [OF c1 conjI [OF b c2]]])
qed

section \<open>The backtest simulator\<close>

lemma engine_ok_reads:
  assumes "engine_ok eng"
  shows "\<exists>sn. build_lob_snapshot eng b = Inr sn"
    and "\<exists>p. first_price (fst (top_levels eng b 1)) = Inr p"
    and "\<exists>p. first_price (snd (top_levels eng b 1)) = Inr p"
proof -
  obtain bids asks where t5: "top_levels eng b 5 = (bids, asks)"
    by (cases "top_levels eng b 5")
  obtain bids1 asks1 where t1: "top_levels eng b 1 = (bids1, asks1)"
    by (cases "top_levels eng b 1")
  have ok5: "length bids = length asks"
    "list_all (\<lambda>l. length l = length (hd (bids @ asks))) (bids @ asks)"
    "length (concat (bids @ asks)) = 10"
    and ok1: "bids1 \<noteq> []" "hd bids1 \<noteq> []" "asks1 \<noteq> []" "hd asks1 \<noteq> []"
    using assms t5 t1 unfolding engine_ok_def by (auto dest!: spec [of _ b])
  show "\<exists>sn. build_lob_snapshot eng b = Inr sn"
    using t5 ok5 by (simp add: build_lob_snapshot_def)
  show "\<exists>p. first_price (fst (top_levels eng b 1)) = Inr p"
    using t1 ok1 by (cases bids1; cases "hd bids1") (auto simp: first_price_def)
  show "\<exists>p. first_price (snd (top_levels eng b 1)) = Inr p"
    using t1 ok1 by (cases asks1; cases "hd asks1") (auto simp: first_price_def)
qed

lemma optimal_spread_defined:
  "0 < gamma p \<Longrightarrow> 0 < kappa p \<Longrightarrow> \<exists>sp. optimal_spread p t = Inr sp"
proof -
  assume "0 < gamma p" "0 < kappa p"
  then have "gamma p \<noteq> 0" "kappa p \<noteq> 0" "0 < 1 + gamma p / kappa p"
    by (simp_all add: add_pos_pos)
  then show ?thesis
    using optimal_spread_closed_form [of p t] by blast
qed

lemma settle_trades_Nil [simp]: "settle_trades oid [] s = s"
  by (simp add: settle_trades_def)

lemma settle_trades_Cons [simp]:
  "settle_trades oid (tr # ms) s = settle_trades oid ms (apply_trade oid s tr)"
  by (simp add: settle_trades_def)

lemma settle_trades_frame [simp]:
  "book (settle_trades oid ms s) = book s"
  "snapshots (settle_trades oid ms s) = snapshots s"
  "order_id (settle_trades oid ms s) = order_id s"
  "calls (settle_trades oid ms s) = calls s"
  by (induction ms arbitrary: s; simp add: apply_trade_def Let_def)+

lemma settle_trades_accounts:
  "inventory (settle_trades oid ms s) = inventory s + inventory_change (oid - 1) ms
   \<and> cash (settle_trades oid ms s) = cash s + cash_change (oid - 1) ms
   \<and> trades (settle_trades oid ms s) = trades s + int (length ms)"
  by (induction ms arbitrary: s)
     (simp_all add: apply_trade_def Let_def inventory_change_def cash_change_def)

lemma step_warm_up:
  assumes "engine_ok eng" and "length (snapshots s) + 1 < 50"
  shows "\<exists>s'. step eng predict params s idx event = Inr s'
           \<and> length (snapshots s') = length (snapshots s) + 1
           \<and> inventory s' = inventory s \<and> cash s' = cash s \<and> trades s' = trades s
           \<and> (\<exists>c. calls s' = calls s @ [c] \<and> at_event c = idx \<and> \<not> is_quote c)"
proof -
  let ?side = "if e_direction event = 1 then Bid else Ask"
  let ?b2 = "snd (match eng (add_order eng (book s) (order_id s) (e_price event) (e_size event) ?side))"
  obtain sn where sn: "build_lob_snapshot eng ?b2 = Inr sn"
    using engine_ok_reads(1) [OF assms(1)] by blast
  show ?thesis
    using sn assms(2) by (simp add: step_def Let_def bind_e_def)
qed

lemma step_quoting:
  assumes "engine_ok eng" and "0 < gamma params" and "0 < kappa params"
    and "50 \<le> length (snapshots s) + 1" and "length (snapshots s) \<le> 50"
  shows "\<exists>s' event_call bid_call ask_call matches.
           step eng predict params s idx event = Inr s'
           \<and> length (snapshots s') = min 50 (length (snapshots s) + 1)
           \<and> calls s' = calls s @ [event_call, bid_call, ask_call]
           \<and> at_event event_call = idx \<and> \<not> is_quote event_call
           \<and> at_event bid_call = idx \<and> is_quote bid_call
           \<and> call_size bid_call = 1 \<and> call_side bid_call = Bid
           \<and> at_event ask_call = idx \<and> is_quote ask_call
           \<and> call_size ask_call = 1 \<and> call_side ask_call = Ask
           \<and> call_id bid_call = order_id s + 1 \<and> call_id ask_call = order_id s + 2
           \<and> order_id s' = order_id s + 3
           \<and> match eng
                 (add_order eng
                    (add_order eng
                       (snd (match eng (add_order eng (book s) (call_id event_call)
                               (call_price event_call) (call_size event_call)
                               (call_side event_call))))
                       (call_id bid_call) (call_price bid_call) 1 Bid)
                    (call_id ask_call) (call_price ask_call) 1 Ask)
               = (matches, book s')
           \<and> inventory s' = inventory s + inventory_change (call_id ask_call) matches
           \<and> cash s' = cash s + cash_change (call_id ask_call) matches
           \<and> trades s' = trades s + int (length matches)"
proof -
  let ?side = "if e_direction event = 1 then Bid else Ask"
  let ?b2 = "snd (match eng (add_order eng (book s) (order_id s) (e_price event) (e_size event) ?side))"
  let ?snaps = "\<lambda>sn. if 50 < length (snapshots s @ [sn]) then tl (snapshots s @ [sn])
                      else snapshots s @ [sn]"
  obtain sn where sn: "build_lob_snapshot eng ?b2 = Inr sn"
    using engine_ok_reads(1) [OF assms(1)] by blast
  obtain bb where bb: "first_price (fst (top_levels eng ?b2 1)) = Inr bb"
    using engine_ok_reads(2) [OF assms(1)] by blast
  obtain ba where ba: "first_price (snd (top_levels eng ?b2 1)) = Inr ba"
    using engine_ok_reads(3) [OF assms(1)] by blast
  let ?t = "real idx / real (max 1 (length (?snaps sn)))"
  obtain sp where sp: "optimal_spread params ?t = Inr sp"
    using optimal_spread_defined [OF assms(2,3)] by blast
  let ?mid = "if 0 < bb \<and> 0 < ba then (bb + ba) / 2 else e_price event"
  let ?r = "reservation_price ?mid (inventory s + max (min (predict (?snaps sn)) 0.5) (- 0.5))
              params ?t"
  let ?b4 = "add_order eng (add_order eng ?b2 (order_id s + 1) (?r - sp) 1 Bid)
               (order_id s + 1 + 1) (?r + sp) 1 Ask"
  obtain matches b5 where m: "match eng ?b4 = (matches, b5)"
    by (cases "match eng ?b4")
  define event_call where "event_call =
    \<lparr>at_event = idx, call_id = order_id s, call_price = e_price event,
     call_size = e_size event, call_side = ?side, is_quote = False\<rparr>"
  define bid_call where "bid_call =
    \<lparr>at_event = idx, call_id = order_id s + 1, call_price = ?r - sp,
     call_size = 1, call_side = Bid, is_quote = True\<rparr>"
  define ask_call where "ask_call =
    \<lparr>at_event = idx, call_id = order_id s + 1 + 1, call_price = ?r + sp,
     call_size = 1, call_side = Ask, is_quote = True\<rparr>"
  define s1 where "s1 = s\<lparr>book := b5, snapshots := ?snaps sn, order_id := order_id s + 1 + 1 + 1,
               calls := calls s @ [event_call] @ [bid_call] @ [ask_call]\<rparr>"
  define s' where "s' = settle_trades (order_id s + 1 + 1 + 1) matches s1"
  have st: "step eng predict params s idx event = Inr s'"
    using sn bb ba sp m assms(4)
    unfolding s'_def s1_def event_call_def bid_call_def ask_call_def
    by (simp add: step_def Let_def bind_e_def)
  have ids: "call_id bid_call = order_id s + 1" "call_id ask_call = order_id s + 2"
    by (simp_all add: bid_call_def ask_call_def)
  have acc: "inventory s' = inventory s + inventory_change (call_id ask_call) matches"
    "cash s' = cash s + cash_change (call_id ask_call) matches"
    "trades s' = trades s + int (length matches)"
  proof -
    have a1: "order_id s + 1 + 1 + 1 - 1 = call_id ask_call"
      by (simp add: ask_call_def)
    have s1f: "inventory s1 = inventory s" "cash s1 = cash s" "trades s1 = trades s"
      by (simp_all add: s1_def)
    note sa = settle_trades_accounts [of "order_id s + 1 + 1 + 1" matches s1]
    show "inventory s' = inventory s + inventory_change (call_id ask_call) matches"
      using sa unfolding a1 s1f s'_def by (rule conjunct1)
    show "cash s' = cash s + cash_change (call_id ask_call) matches"
      using sa unfolding a1 s1f s'_def by (rule conjunct1 [OF conjunct2])
    show "trades s' = trades s + int (length matches)"
      using sa unfolding a1 s1f s'_def by (rule conjunct2 [OF conjunct2])
  qed
  have len: "length (snapshots s') = min 50 (length (snapshots s) + 1)"
    using assms(4,5) by (auto simp: s'_def s1_def)
  have cl: "calls s' = calls s @ [event_call, bid_call, ask_call]"
    by (simp add: s'_def s1_def)
  have oid: "order_id s' = order_id s + 3"
    by (simp add: s'_def s1_def)
  have ev: "at_event event_call = idx" "\<not> is_quote event_call"
    by (simp_all add: event_call_def)
  have bq: "at_event bid_call = idx" "is_quote bid_call" "call_size bid_call = 1"
    "call_side bid_call = Bid"
    by (simp_all add: bid_call_def)
  have aq: "at_event ask_call = idx" "is_quote ask_call" "call_size ask_call = 1"
    "call_side ask_call = Ask"
    by (simp_all add: ask_call_def)
  have bk: "book s' = b5"
    by (simp add: s'_def s1_def)
  have mt: "match eng
              (add_order eng
                 (add_order eng
                    (snd (match eng (add_order eng (book s) (call_id event_call)
                            (call_price event_call) (call_size event_call)
                            (call_side event_call))))
                    (call_id bid_call) (call_price bid_call) 1 Bid)
                 (call_id ask_call) (call_price ask_call) 1 Ask)
            = (matches, book s')"
    unfolding bk using m by (simp add: event_call_def bid_call_def ask_call_def)
  show ?thesis
    apply (rule exI [of _ s'], rule exI [of _ event_call], rule exI [of _ bid_call])
    apply (rule exI [of _ ask_call], rule exI [of _ matches])
    apply (intro conjI)
    apply (fact st len cl ev bq aq ids oid mt acc)+
    done
qed

lemma quotes_at_append [simp]: "quotes_at j (xs @ ys) = quotes_at j xs @ quotes_at j ys"
  by (simp add: quotes_at_def)

lemma quotes_at_other_event:
  "\<forall>c\<in>set cs. at_event c \<noteq> j \<Longrightarrow> quotes_at j cs = []"
  by (auto simp: quotes_at_def filter_empty_conv)

lemma step_calls:
  assumes "engine_ok eng" and "0 < gamma params" and "0 < kappa params"
    and "length (snapshots s) = min idx 50"
  shows "\<exists>s' new. step eng predict params s idx event = Inr s'
           \<and> length (snapshots s') = min (Suc idx) 50
           \<and> calls s' = calls s @ new \<and> (\<forall>c\<in>set new. at_event c = idx)
           \<and> quotes_at idx new = (if idx + 1 < 50 then [] else [(1, Bid), (1, Ask)])"
proof (cases "idx + 1 < 50")
  case True
  then have "length (snapshots s) + 1 < 50" using assms(4) by simp
  then obtain s' c where r: "step eng predict params s idx event = Inr s'"
    "length (snapshots s') = length (snapshots s) + 1"
    "calls s' = calls s @ [c]" "at_event c = idx" "\<not> is_quote c"
    using step_warm_up [OF assms(1), of s predict params idx event] by blast
  have "quotes_at idx [c] = []"
    using r(5) by (simp add: quotes_at_def)
  then show ?thesis
    using True r assms(4) by (intro exI [of _ s'] exI [of _ "[c]"]) simp
next
  case False
  then have b: "50 \<le> length (snapshots s) + 1" "length (snapshots s) \<le> 50"
    using assms(4) by simp_all
  obtain s' ec bc ac where r: "step eng predict params s idx event = Inr s'"
    "length (snapshots s') = min 50 (length (snapshots s) + 1)"
    "calls s' = calls s @ [ec, bc, ac]"
    "at_event ec = idx" "\<not> is_quote ec"
    "at_event bc = idx" "is_quote bc" "call_size bc = 1" "call_side bc = Bid"
    "at_event ac = idx" "is_quote ac" "call_size ac = 1" "call_side ac = Ask"
    using step_quoting [OF assms(1-3) b, of predict idx event] by blast
  have "quotes_at idx [ec, bc, ac] = [(1, Bid), (1, Ask)]"
    using r(4-13) by (simp add: quotes_at_def)
  then show ?thesis
    using False r(1-4,6,10) b assms(4)
    by (intro exI [of _ s'] exI [of _ "[ec, bc, ac]"]) simp
qed

lemma run_events_calls:
  assumes "engine_ok eng" and "0 < gamma params" and "0 < kappa params"
  shows "length (snapshots s) = min idx 50 \<Longrightarrow> \<forall>c\<in>set (calls s). at_event c < idx \<Longrightarrow>
         \<exists>s'. run_events eng predict params s idx events = Inr s'
           \<and> length (snapshots s') = min (idx + length events) 50
           \<and> (\<forall>c\<in>set (calls s'). at_event c < idx + length events)
           \<and> (\<forall>j<idx. quotes_at j (calls s') = quotes_at j (calls s))
           \<and> (\<forall>j. idx \<le> j \<and> j < idx + length events \<longrightarrow>
                 quotes_at j (calls s') = (if j + 1 < 50 then [] else [(1, Bid), (1, Ask)]))"
proof (induction events arbitrary: s idx)
  case Nil
  then show ?case by auto
next
  case (Cons event events)
  obtain s1 new where s1: "step eng predict params s idx event = Inr s1"
    "length (snapshots s1) = min (Suc idx) 50"
    "calls s1 = calls s @ new" "\<forall>c\<in>set new. at_event c = idx"
    "quotes_at idx new = (if idx + 1 < 50 then [] else [(1, Bid), (1, Ask)])"
    using step_calls [OF assms Cons.prems(1), of predict event] by blast
  have before: "\<forall>c\<in>set (calls s1). at_event c < Suc idx"
    using s1(3,4) Cons.prems(2) by auto
  obtain s' where s': "run_events eng predict params s1 (Suc idx) events = Inr s'"
    "length (snapshots s') = min (Suc idx + length events) 50"
    "\<forall>c\<in>set (calls s'). at_event c < Suc idx + length events"
    "\<forall>j<Suc idx. quotes_at j (calls s') = quotes_at j (calls s1)"
    "\<forall>j. Suc idx \<le> j \<and> j < Suc idx + length events \<longrightarrow>
        quotes_at j (calls s') = (if j + 1 < 50 then [] else [(1, Bid), (1, Ask)])"
    using Cons.IH [OF s1(2) before] by (elim exE conjE) (rule that)
  have none_yet: "quotes_at idx (calls s) = []"
    using Cons.prems(2) by (intro quotes_at_other_event) auto
  have at_idx: "quotes_at idx (calls s') = (if idx + 1 < 50 then [] else [(1, Bid), (1, Ask)])"
    using s'(4) s1(3,5) none_yet by simp
  have earlier: "quotes_at j (calls s') = quotes_at j (calls s)" if "j < idx" for j
  proof -
    have "quotes_at j new = []"
      using s1(4) that by (intro quotes_at_other_event) auto
    then show ?thesis
      using s'(4) s1(3) that by simp
  qed
  have later: "quotes_at j (calls s') = (if j + 1 < 50 then [] else [(1, Bid), (1, Ask)])"
    if "idx \<le> j \<and> j < idx + length (event # events)" for j
  proof (cases "j = idx")
    case True
    then show ?thesis using at_idx by simp
  next
    case False
    then show ?thesis using that s'(5) by simp
  qed
  have run: "run_events eng predict params s idx (event # events) = Inr s'"
    using s1(1) s'(1) by simp
  have len: "length (snapshots s') = min (idx + length (event # events)) 50"
    using s'(2) by simp
  have bound: "\<forall>c\<in>set (calls s'). at_event c < idx + length (event # events)"
    using s'(3) by simp
  show ?case
    using run len bound earlier later by (intro exI [of _ s'] conjI allI impI) blast+
qed


lemma echo_engine_ok: "engine_ok echo_engine"
  by (simp add: engine_ok_def echo_engine_def eval_nat_numeral)

lemma final_mid_value:
  assumes "engine_ok eng"
  shows "\<exists>bid ask. first_price (fst (top_levels eng b 1)) = Inr bid
           \<and> first_price (snd (top_levels eng b 1)) = Inr ask
           \<and> final_mid eng b = Inr (if 0 < bid \<and> 0 < ask then (bid + ask) / 2 else 0)"
proof -
  obtain bid where bid: "first_price (fst (top_levels eng b 1)) = Inr bid"
    using engine_ok_reads(2) [OF assms] by blast
  obtain ask where ask: "first_price (snd (top_levels eng b 1)) = Inr ask"
    using engine_ok_reads(3) [OF assms] by blast
  have "final_mid eng b = Inr (if 0 < bid \<and> 0 < ask then (bid + ask) / 2 else 0)"
    using bid ask by (simp add: final_mid_def Let_def bind_e_def)
  then show ?thesis
    using bid ask by blast
qed

lemma run_backtest_pnl:
  assumes "engine_ok eng" and "0 < gamma params" and "0 < kappa params"
  shows "\<exists>s bid ask res.
           run_loop eng predict params events = Inr s
           \<and> first_price (fst (top_levels eng (book s) 1)) = Inr bid
           \<and> first_price (snd (top_levels eng (book s) 1)) = Inr ask
           \<and> run_backtest eng predict params events elapsed = Inr res
           \<and> pnl res = cash s + inventory s * (if 0 < bid \<and> 0 < ask then (bid + ask) / 2 else 0)
           \<and> trades_total res = trades s"
proof -
  have i1: "length (snapshots (initial_sim eng)) = min 0 50"
    by (simp add: initial_sim_def)
  have i2: "\<forall>c\<in>set (calls (initial_sim eng)). at_event c < 0"
    by (simp add: initial_sim_def)
  obtain s where s: "run_events eng predict params (initial_sim eng) 0 events = Inr s"
    using run_events_calls [OF assms i1 i2, of predict events]
    by (elim exE conjE) (rule that)
  obtain bid ask where fm: "first_price (fst (top_levels eng (book s) 1)) = Inr bid"
    "first_price (snd (top_levels eng (book s) 1)) = Inr ask"
    "final_mid eng (book s) = Inr (if 0 < bid \<and> 0 < ask then (bid + ask) / 2 else 0)"
    using final_mid_value [OF assms(1), of "book s"] by (elim exE conjE) (rule that)
  let ?res = "\<lparr>orders_per_second = (if 0 < elapsed then real_of_int (order_id s) / elapsed else 0),
               pnl = cash s + inventory s * (if 0 < bid \<and> 0 < ask then (bid + ask) / 2 else 0),
               trades_total = trades s\<rparr>"
  have rl: "run_loop eng predict params events = Inr s"
    using s by (simp add: run_loop_def)
  have "run_backtest eng predict params events elapsed = Inr ?res"
    using rl fm(3) by (simp add: run_backtest_def bind_e_def Let_def)
  then show ?thesis
    using rl fm(1,2) by (intro exI [of _ s] exI [of _ bid] exI [of _ ask] exI [of _ ?res]) simp
qed

subsection \<open>The states of a run\<close>

lemma run_events_snoc:
  "run_events eng predict params s idx (events @ [event])
     = (case run_events eng predict params s idx events of
          Inl e \<Rightarrow> Inl e
        | Inr s' \<Rightarrow> step eng predict params s' (idx + length events) event)"
  by (induction events arbitrary: s idx) (simp_all split: sum.splits)

lemma step_accounts:
  assumes "engine_ok eng" and "0 < gamma params" and "0 < kappa params"
    and "length (snapshots s) = min k 50"
  shows "\<exists>s'. step eng predict params s k event = Inr s'
           \<and> length (snapshots s') = min (Suc k) 50
           \<and> (if k + 1 < 50
             then inventory s' = inventory s \<and> cash s' = cash s \<and> trades s' = trades s
             else (\<exists>event_call bid_call ask_call matches.
                     calls s' = calls s @ [event_call, bid_call, ask_call]
                     \<and> is_quote bid_call \<and> call_side bid_call = Bid
                     \<and> is_quote ask_call \<and> call_side ask_call = Ask
                     \<and> match eng
                           (add_order eng
                              (add_order eng
                                 (snd (match eng (add_order eng (book s) (call_id event_call)
                                         (call_price event_call) (call_size event_call)
                                         (call_side event_call))))
                                 (call_id bid_call) (call_price bid_call) 1 Bid)
                              (call_id ask_call) (call_price ask_call) 1 Ask)
                         = (matches, book s')
                     \<and> inventory s' = inventory s + inventory_change (call_id ask_call) matches
                     \<and> cash s' = cash s + cash_change (call_id ask_call) matches
                     \<and> trades s' = trades s + int (length matches)))"
proof (cases "k + 1 < 50")
  case True
  then have lt: "length (snapshots s) + 1 < 50" using assms(4) by simp
  obtain s' where r: "step eng predict params s k event = Inr s'"
    "length (snapshots s') = length (snapshots s) + 1"
    "inventory s' = inventory s" "cash s' = cash s" "trades s' = trades s"
    using step_warm_up [OF assms(1) lt, of predict params k event] by (elim exE conjE) (rule that)
  have "length (snapshots s') = min (Suc k) 50"
    using r(2) assms(4) True by simp
  then show ?thesis
    using True r(1,3,4,5) by simp
next
  case False
  then have b: "50 \<le> length (snapshots s) + 1" "length (snapshots s) \<le> 50"
    using assms(4) by simp_all
  obtain s' ec bc ac ms where r: "step eng predict params s k event = Inr s'"
    "length (snapshots s') = min 50 (length (snapshots s) + 1)"
    "calls s' = calls s @ [ec, bc, ac]"
    "is_quote bc" "call_side bc = Bid" "is_quote ac" "call_side ac = Ask"
    "match eng
       (add_order eng
          (add_order eng
             (snd (match eng (add_order eng (book s) (call_id ec) (call_price ec) (call_size ec)
                     (call_side ec))))
             (call_id bc) (call_price bc) 1 Bid)
          (call_id ac) (call_price ac) 1 Ask)
     = (ms, book s')"
    "inventory s' = inventory s + inventory_change (call_id ac) ms"
    "cash s' = cash s + cash_change (call_id ac) ms"
    "trades s' = trades s + int (length ms)"
    using step_quoting [OF assms(1-3) b, of predict k event] by (elim exE conjE) (rule that)
  have len: "length (snapshots s') = min (Suc k) 50"
    using r(2) assms(4) False by simp
  have "\<exists>event_call bid_call ask_call matches.
         calls s' = calls s @ [event_call, bid_call, ask_call]
         \<and> is_quote bid_call \<and> call_side bid_call = Bid
         \<and> is_quote ask_call \<and> call_side ask_call = Ask
         \<and> match eng
               (add_order eng
                  (add_order eng
                     (snd (match eng (add_order eng (book s) (call_id event_call)
                             (call_price event_call) (call_size event_call)
                             (call_side event_call))))
                     (call_id bid_call) (call_price bid_call) 1 Bid)
                  (call_id ask_call) (call_price ask_call) 1 Ask)
             = (matches, book s')
         \<and> inventory s' = inventory s + inventory_change (call_id ask_call) matches
         \<and> cash s' = cash s + cash_change (call_id ask_call) matches
         \<and> trades s' = trades s + int (length matches)"
    apply (rule exI [of _ ec], rule exI [of _ bc], rule exI [of _ ac], rule exI [of _ ms])
    apply (intro conjI)
    apply (fact r)+
    done
  then show ?thesis
    using False r(1) len by (intro exI [of _ s']) (simp only: if_False simp_thms)
qed

lemma run_states:
  assumes "engine_ok eng" and "0 < gamma params" and "0 < kappa params"
  shows "\<exists>states. length states = Suc (length events)
           \<and> states ! 0 = initial_sim eng
           \<and> run_loop eng predict params events = Inr (states ! length events)
           \<and> length (snapshots (states ! length events)) = min (length events) 50
           \<and> (\<forall>k<length events.
                 step eng predict params (states ! k) k (events ! k) = Inr (states ! Suc k)
                 \<and> (if k + 1 < 50
                   then inventory (states ! Suc k) = inventory (states ! k)
                        \<and> cash (states ! Suc k) = cash (states ! k)
                        \<and> trades (states ! Suc k) = trades (states ! k)
                   else (\<exists>event_call bid_call ask_call matches.
                           calls (states ! Suc k) = calls (states ! k) @ [event_call, bid_call, ask_call]
                           \<and> is_quote bid_call \<and> call_side bid_call = Bid
                           \<and> is_quote ask_call \<and> call_side ask_call = Ask
                           \<and> match eng
                                 (add_order eng
                                    (add_order eng
                                       (snd (match eng (add_order eng (book (states ! k))
                                               (call_id event_call)
                                               (call_price event_call) (call_size event_call)
                                               (call_side event_call))))
                                       (call_id bid_call) (call_price bid_call) 1 Bid)
                                    (call_id ask_call) (call_price ask_call) 1 Ask)
                               = (matches, book (states ! Suc k))
                           \<and> inventory (states ! Suc k) = inventory (states ! k)
                                   + inventory_change (call_id ask_call) matches
                           \<and> cash (states ! Suc k) = cash (states ! k)
                                   + cash_change (call_id ask_call) matches
                           \<and> trades (states ! Suc k) = trades (states ! k) + int (length matches))))"
proof (induction events rule: rev_induct)
  case Nil
  show ?case
    by (rule exI [of _ "[initial_sim eng]"]) (simp add: run_loop_def initial_sim_def)
next
  case (snoc event events)
  let ?n = "length events"
  obtain states where st: "length states = Suc ?n" "states ! 0 = initial_sim eng"
    "run_loop eng predict params events = Inr (states ! ?n)"
    "length (snapshots (states ! ?n)) = min ?n 50"
    and steps: "\<forall>k<?n.
       step eng predict params (states ! k) k (events ! k) = Inr (states ! Suc k)
       \<and> (if k + 1 < 50
                   then inventory (states ! Suc k) = inventory (states ! k)
                        \<and> cash (states ! Suc k) = cash (states ! k)
                        \<and> trades (states ! Suc k) = trades (states ! k)
                   else (\<exists>event_call bid_call ask_call matches.
                           calls (states ! Suc k) = calls (states ! k) @ [event_call, bid_call, ask_call]
                           \<and> is_quote bid_call \<and> call_side bid_call = Bid
                           \<and> is_quote ask_call \<and> call_side ask_call = Ask
                           \<and> match eng
                                 (add_order eng
                                    (add_order eng
                                       (snd (match eng (add_order eng (book (states ! k))
                                               (call_id event_call)
                                               (call_price event_call) (call_size event_call)
                                               (call_side event_call))))
                                       (call_id bid_call) (call_price bid_call) 1 Bid)
                                    (call_id ask_call) (call_price ask_call) 1 Ask)
                               = (matches, book (states ! Suc k))
                           \<and> inventory (states ! Suc k) = inventory (states ! k)
                                   + inventory_change (call_id ask_call) matches
                           \<and> cash (states ! Suc k) = cash (states ! k)
                                   + cash_change (call_id ask_call) matches
                           \<and> trades (states ! Suc k) = trades (states ! k) + int (length matches)))"
    using snoc.IH by (elim exE conjE) (rule that)
  obtain s' where s': "step eng predict params (states ! ?n) ?n event = Inr s'"
    "length (snapshots s') = min (Suc ?n) 50"
    and acc: "(if ?n + 1 < 50
           then inventory s' = inventory (states ! ?n)
                \<and> cash s' = cash (states ! ?n)
                \<and> trades s' = trades (states ! ?n)
           else (\<exists>event_call bid_call ask_call matches.
                   calls s' = calls (states ! ?n) @ [event_call, bid_call, ask_call]
                   \<and> is_quote bid_call \<and> call_side bid_call = Bid
                   \<and> is_quote ask_call \<and> call_side ask_call = Ask
                   \<and> match eng
                         (add_order eng
                            (add_order eng
                               (snd (match eng (add_order eng (book (states ! ?n))
                                       (call_id event_call)
                                       (call_price event_call) (call_size event_call)
                                       (call_side event_call))))
                               (call_id bid_call) (call_price bid_call) 1 Bid)
                            (call_id ask_call) (call_price ask_call) 1 Ask)
                       = (matches, book s')
                   \<and> inventory s' = inventory (states ! ?n)
                           + inventory_change (call_id ask_call) matches
                   \<and> cash s' = cash (states ! ?n) + cash_change (call_id ask_call) matches
                   \<and> trades s' = trades (states ! ?n) + int (length matches)))"
    using step_accounts [OF assms st(4), of predict event] by (elim exE conjE) (rule that)
  let ?states = "states @ [s']"
  have old: "?states ! k = states ! k" if "k \<le> ?n" for k
    using that st(1) by (simp add: nth_append)
  have new: "?states ! Suc ?n = s'"
    using st(1) by (simp add: nth_append)
  have run: "run_loop eng predict params (events @ [event]) = Inr s'"
    using st(3) s'(1) by (simp add: run_loop_def run_events_snoc)
  have step_k: "step eng predict params (?states ! k) k ((events @ [event]) ! k)
                  = Inr (?states ! Suc k)
                \<and> (if k + 1 < 50
                   then inventory (?states ! Suc k) = inventory (?states ! k)
                        \<and> cash (?states ! Suc k) = cash (?states ! k)
                        \<and> trades (?states ! Suc k) = trades (?states ! k)
                   else (\<exists>event_call bid_call ask_call matches.
                           calls (?states ! Suc k) = calls (?states ! k) @ [event_call, bid_call, ask_call]
                           \<and> is_quote bid_call \<and> call_side bid_call = Bid
                           \<and> is_quote ask_call \<and> call_side ask_call = Ask
                           \<and> match eng
                                 (add_order eng
                                    (add_order eng
                                       (snd (match eng (add_order eng (book (?states ! k))
                                               (call_id event_call)
                                               (call_price event_call) (call_size event_call)
                                               (call_side event_call))))
                                       (call_id bid_call) (call_price bid_call) 1 Bid)
                                    (call_id ask_call) (call_price ask_call) 1 Ask)
                               = (matches, book (?states ! Suc k))
                           \<and> inventory (?states ! Suc k) = inventory (?states ! k)
                                   + inventory_change (call_id ask_call) matches
                           \<and> cash (?states ! Suc k) = cash (?states ! k)
                                   + cash_change (call_id ask_call) matches
                           \<and> trades (?states ! Suc k) = trades (?states ! k) + int (length matches)))"
    if "k < length (events @ [event])" for k
  proof (cases "k < ?n")
    case True
    then have eqs: "?states ! k = states ! k" "?states ! Suc k = states ! Suc k"
      "(events @ [event]) ! k = events ! k"
      using old [of k] old [of "Suc k"] by (simp_all add: nth_append)
    show ?thesis
      unfolding eqs by (rule steps [rule_format, OF True])
  next
    case False
    then have k: "k = ?n" using that by simp
    have eqs: "?states ! ?n = states ! ?n" "?states ! Suc ?n = s'"
      "(events @ [event]) ! ?n = event"
      using old [of ?n] new by simp_all
    show ?thesis
      unfolding k eqs by (rule conjI [OF s'(1) acc])
  qed
  have all: "\<forall>k<length (events @ [event]).
               step eng predict params (?states ! k) k ((events @ [event]) ! k)
                 = Inr (?states ! Suc k)
               \<and> (if k + 1 < 50
                then inventory (?states ! Suc k) = inventory (?states ! k)
                     \<and> cash (?states ! Suc k) = cash (?states ! k)
                     \<and> trades (?states ! Suc k) = trades (?states ! k)
                else (\<exists>event_call bid_call ask_call matches.
                        calls (?states ! Suc k) = calls (?states ! k) @ [event_call, bid_call, ask_call]
                        \<and> is_quote bid_call \<and> call_side bid_call = Bid
                        \<and> is_quote ask_call \<and> call_side ask_call = Ask
                        \<and> match eng
                              (add_order eng
                                 (add_order eng
                                    (snd (match eng (add_order eng (book (?states ! k))
                                            (call_id event_call)
                                            (call_price event_call) (call_size event_call)
                                            (call_side event_call))))
                                    (call_id bid_call) (call_price bid_call) 1 Bid)
                                 (call_id ask_call) (call_price ask_call) 1 Ask)
                            = (matches, book (?states ! Suc k))
                        \<and> inventory (?states ! Suc k) = inventory (?states ! k)
                                + inventory_change (call_id ask_call) matches
                        \<and> cash (?states ! Suc k) = cash (?states ! k)
                                + cash_change (call_id ask_call) matches
                        \<and> trades (?states ! Suc k) = trades (?states ! k) + int (length matches)))"
    by (intro allI impI) (rule step_k)
  have len: "length ?states = Suc (length (events @ [event]))"
    using st(1) by simp
  have init: "?states ! 0 = initial_sim eng"
    using old [of 0] st(2) by simp
  have fin: "run_loop eng predict params (events @ [event])
               = Inr (?states ! length (events @ [event]))"
    "length (snapshots (?states ! length (events @ [event])))
       = min (length (events @ [event])) 50"
    using run s'(2) new by simp_all
  show ?case
    apply (rule exI [of _ ?states])
    apply (intro conjI)
    apply (fact len init fin all)+
    done
qed

text \<open>
  C8. With an engine the simulator can read and positive \<open>gamma\<close> and \<open>kappa\<close>, the run of
  \<open>run_backtest\<close> over the events passes through the states \<open>states ! 0, ..., states ! n\<close>:
  the first is the initial state, with no inventory, no cash and no trade, each next one is
  the state after the loop body for the event \<open>k\<close>, and the last is the state the loop ends
  in. While fewer than 50 events have been processed the loop body leaves inventory, cash
  and the trade count as they are. From the 50th event on it submits the bid and then the
  ask and settles the trades \<open>matches\<close> that the matching step after the two quotes returns:
  a trade whose aggressor id is the id of the ask quote lowers the inventory by its quantity
  and raises the cash by quantity times price, any other trade raises the inventory and
  lowers the cash, and the trade count grows by the number of trades. The run returns, its
  PnL is the cash plus the inventory of the last state times the final mid, which is 0
  unless both final top-of-book prices are positive, and its trade count is that of the
  last state.
\<close>

theorem C8_run_settles_fills_and_marks_to_market:
  assumes "engine_ok eng" and "0 < gamma params" and "0 < kappa params"
  shows "\<exists>states bid ask res.
           length states = Suc (length events)
           \<and> states ! 0 = initial_sim eng
           \<and> inventory (states ! 0) = 0 \<and> cash (states ! 0) = 0 \<and> trades (states ! 0) = 0
           \<and> (\<forall>k<length events.
                 step eng predict params (states ! k) k (events ! k) = Inr (states ! Suc k)
                 \<and> (if k + 1 < 50
                   then inventory (states ! Suc k) = inventory (states ! k)
                        \<and> cash (states ! Suc k) = cash (states ! k)
                        \<and> trades (states ! Suc k) = trades (states ! k)
                   else (\<exists>event_call bid_call ask_call matches.
                           calls (states ! Suc k) = calls (states ! k) @ [event_call, bid_call, ask_call]
                           \<and> is_quote bid_call \<and> call_side bid_call = Bid
                           \<and> is_quote ask_call \<and> call_side ask_call = Ask
                           \<and> match eng
                                 (add_order eng
                                    (add_order eng
                                       (snd (match eng (add_order eng (book (states ! k))
                                               (call_id event_call)
                                               (call_price event_call) (call_size event_call)
                                               (call_side event_call))))
                                       (call_id bid_call) (call_price bid_call) 1 Bid)
                                    (call_id ask_call) (call_price ask_call) 1 Ask)
                               = (matches, book (states ! Suc k))
                           \<and> inventory (states ! Suc k) = inventory (states ! k)
                                   + inventory_change (call_id ask_call) matches
                           \<and> cash (states ! Suc k) = cash (states ! k)
                                   + cash_change (call_id ask_call) matches
                           \<and> trades (states ! Suc k) = trades (states ! k) + int (length matches))))
           \<and> run_loop eng predict params events = Inr (states ! length events)
           \<and> first_price (fst (top_levels eng (book (states ! length events)) 1)) = Inr bid
           \<and> first_price (snd (top_levels eng (book (states ! length events)) 1)) = Inr ask
           \<and> run_backtest eng predict params events elapsed = Inr res
           \<and> pnl res = cash (states ! length events)
                       + inventory (states ! length events)
                         * (if 0 < bid \<and> 0 < ask then (bid + ask) / 2 else 0)
           \<and> trades_total res = trades (states ! length events)"
proof -
  obtain states where st: "length states = Suc (length events)"
    "states ! 0 = initial_sim eng"
    "run_loop eng predict params events = Inr (states ! length events)"
    and steps: "\<forall>k<length events.
       step eng predict params (states ! k) k (events ! k) = Inr (states ! Suc k)
       \<and> (if k + 1 < 50
                   then inventory (states ! Suc k) = inventory (states ! k)
                        \<and> cash (states ! Suc k) = cash (states ! k)
                        \<and> trades (states ! Suc k) = trades (states ! k)
                   else (\<exists>event_call bid_call ask_call matches.
                           calls (states ! Suc k) = calls (states ! k) @ [event_call, bid_call, ask_call]
                           \<and> is_quote bid_call \<and> call_side bid_call = Bid
                           \<and> is_quote ask_call \<and> call_side ask_call = Ask
                           \<and> match eng
                                 (add_order eng
                                    (add_order eng
                                       (snd (match eng (add_order eng (book (states ! k))
                                               (call_id event_call)
                                               (call_price event_call) (call_size event_call)
                                               (call_side event_call))))
                                       (call_id bid_call) (call_price bid_call) 1 Bid)
                                    (call_id ask_call) (call_price ask_call) 1 Ask)
                               = (matches, book (states ! Suc k))
                           \<and> inventory (states ! Suc k) = inventory (states ! k)
                                   + inventory_change (call_id ask_call) matches
                           \<and> cash (states ! Suc k) = cash (states ! k)
                                   + cash_change (call_id ask_call) matches
                           \<and> trades (states ! Suc k) = trades (states ! k) + int (length matches)))"
    using run_states [OF assms, where predict = predict and events = events]
    by (elim exE conjE) (rule that)
  obtain s bid ask res where r: "run_loop eng predict params events = Inr s"
    "first_price (fst (top_levels eng (book s) 1)) = Inr bid"
    "first_price (snd (top_levels eng (book s) 1)) = Inr ask"
    "run_backtest eng predict params events elapsed = Inr res"
    "pnl res = cash s + inventory s * (if 0 < bid \<and> 0 < ask then (bid + ask) / 2 else 0)"
    "trades_total res = trades s"
    using run_backtest_pnl [OF assms, of predict events elapsed] by (elim exE conjE) (rule that)
  have s: "s = states ! length events"
    using r(1) st(3) by simp
  have init: "inventory (states ! 0) = 0" "cash (states ! 0) = 0" "trades (states ! 0) = 0"
    by (simp_all add: st(2) initial_sim_def)
  show ?thesis
    apply (rule exI [of _ states], rule exI [of _ bid], rule exI [of _ ask], rule exI [of _ res])
    apply (intro conjI)
    apply (fact st init steps r [unfolded s])+
    done
qed

lemma default_params_positive: "0 < gamma default_params" "0 < kappa default_params"
  by (simp_all add: default_params_def)


theorem C8_run_witness:
  "engine_ok echo_engine \<and> 0 < gamma default_params \<and> 0 < kappa default_params
   \<and> (\<exists>states res.
         length states = 61
         \<and> inventory (states ! 0) = 0 \<and> cash (states ! 0) = 0 \<and> trades (states ! 0) = 0
         \<and> step echo_engine (\<lambda>window. 0) default_params (states ! 48) 48 buy_event
             = Inr (states ! 49)
         \<and> inventory (states ! 49) = inventory (states ! 48)
         \<and> cash (states ! 49) = cash (states ! 48)
         \<and> trades (states ! 49) = trades (states ! 48)
         \<and> step echo_engine (\<lambda>window. 0) default_params (states ! 49) 49 buy_event
             = Inr (states ! 50)
         \<and> (\<exists>(bid_call :: order_call) (ask_call :: order_call).
               inventory (states ! 50)
                 = inventory (states ! 49)
                   + inventory_change (call_id ask_call)
                       [\<lparr>aggressor_id = call_id bid_call, price = call_price bid_call, qty = 1\<rparr>,
                        \<lparr>aggressor_id = call_id ask_call, price = call_price ask_call, qty = 1\<rparr>]
               \<and> trades (states ! 50) = trades (states ! 49) + 2)
         \<and> run_loop echo_engine (\<lambda>window. 0) default_params (replicate 60 buy_event)
             = Inr (states ! 60)
         \<and> run_backtest echo_engine (\<lambda>window. 0) default_params (replicate 60 buy_event) 1
             = Inr res
         \<and> pnl res = cash (states ! 60) + inventory (states ! 60) * 1
         \<and> trades_total res = trades (states ! 60))"
proof -
  let ?events = "replicate 60 buy_event"
  obtain states bid ask res where r: "length states = Suc (length ?events)"
    "inventory (states ! 0) = 0" "cash (states ! 0) = 0" "trades (states ! 0) = 0"
    "run_loop echo_engine (\<lambda>window. 0) default_params ?events = Inr (states ! length ?events)"
    "first_price (fst (top_levels echo_engine (book (states ! length ?events)) 1)) = Inr bid"
    "first_price (snd (top_levels echo_engine (book (states ! length ?events)) 1)) = Inr ask"
    "run_backtest echo_engine (\<lambda>window. 0) default_params ?events 1 = Inr res"
    "pnl res = cash (states ! length ?events)
               + inventory (states ! length ?events)
                 * (if 0 < bid \<and> 0 < ask then (bid + ask) / 2 else 0)"
    "trades_total res = trades (states ! length ?events)"
    and steps: "\<forall>k<length ?events.
       step echo_engine (\<lambda>window. 0) default_params (states ! k) k (?events ! k)
         = Inr (states ! Suc k)
       \<and> (if k + 1 < 50
        then inventory (states ! Suc k) = inventory (states ! k)
             \<and> cash (states ! Suc k) = cash (states ! k)
             \<and> trades (states ! Suc k) = trades (states ! k)
        else (\<exists>event_call bid_call ask_call matches.
                calls (states ! Suc k) = calls (states ! k) @ [event_call, bid_call, ask_call]
                \<and> is_quote bid_call \<and> call_side bid_call = Bid
                \<and> is_quote ask_call \<and> call_side ask_call = Ask
                \<and> match echo_engine
                      (add_order echo_engine
                         (add_order echo_engine
                            (snd (match echo_engine (add_order echo_engine (book (states ! k))
                                    (call_id event_call)
                                    (call_price event_call) (call_size event_call)
                                    (call_side event_call))))
                            (call_id bid_call) (call_price bid_call) 1 Bid)
                         (call_id ask_call) (call_price ask_call) 1 Ask)
                    = (matches, book (states ! Suc k))
                \<and> inventory (states ! Suc k) = inventory (states ! k)
                        + inventory_change (call_id ask_call) matches
                \<and> cash (states ! Suc k) = cash (states ! k)
                        + cash_change (call_id ask_call) matches
                \<and> trades (states ! Suc k) = trades (states ! k) + int (length matches)))"
    using C8_run_settles_fills_and_marks_to_market
            [OF echo_engine_ok default_params_positive,
             where predict = "\<lambda>window. 0" and events = ?events and elapsed = 1]
    by (elim exE conjE) (rule that)
  have prices: "bid = 1" "ask = 1"
    using r(6,7) by (simp_all add: echo_engine_def first_price_def)
  have lt: "48 < length ?events" "49 < length ?events"
    by simp_all
  have warm: "(48::nat) + 1 < 50" and full: "\<not> (49::nat) + 1 < 50"
    by simp_all
  note c48 = steps [rule_format, OF lt(1)]
  note c49 = steps [rule_format, OF lt(2)]
  have k48: "step echo_engine (\<lambda>window. 0) default_params (states ! 48) 48 buy_event
               = Inr (states ! 49)"
    "inventory (states ! 49) = inventory (states ! 48)"
    "cash (states ! 49) = cash (states ! 48)" "trades (states ! 49) = trades (states ! 48)"
    using conjunct1 [OF c48] conjunct2 [OF c48, unfolded if_P [OF warm]] by simp_all
  have s49: "step echo_engine (\<lambda>window. 0) default_params (states ! 49) 49 buy_event
               = Inr (states ! 50)"
    using conjunct1 [OF c49] by simp
  from conjunct2 [OF c49, unfolded if_not_P [OF full]]
  obtain ec bc ac ms where q0:
    "calls (states ! Suc 49) = calls (states ! 49) @ [ec, bc, ac]"
    "is_quote bc" "call_side bc = Bid" "is_quote ac" "call_side ac = Ask"
    "match echo_engine
       (add_order echo_engine
          (add_order echo_engine
             (snd (match echo_engine (add_order echo_engine (book (states ! 49))
                     (call_id ec) (call_price ec) (call_size ec) (call_side ec))))
             (call_id bc) (call_price bc) 1 Bid)
          (call_id ac) (call_price ac) 1 Ask)
     = (ms, book (states ! Suc 49))"
    "inventory (states ! Suc 49) = inventory (states ! 49) + inventory_change (call_id ac) ms"
    "cash (states ! Suc 49) = cash (states ! 49) + cash_change (call_id ac) ms"
    "trades (states ! Suc 49) = trades (states ! 49) + int (length ms)"
    by (elim exE conjE) (rule that)
  have s50: "Suc 49 = (50::nat)"
    by simp
  note q = q0 [unfolded s50]
  have ms: "ms = [\<lparr>aggressor_id = call_id bc, price = call_price bc, qty = 1\<rparr>,
                  \<lparr>aggressor_id = call_id ac, price = call_price ac, qty = 1\<rparr>]"
    using q(6) by (simp add: echo_engine_def)
  have inv2: "inventory (states ! 50)
                = inventory (states ! 49)
                  + inventory_change (call_id ac)
                      [\<lparr>aggressor_id = call_id bc, price = call_price bc, qty = 1\<rparr>,
                       \<lparr>aggressor_id = call_id ac, price = call_price ac, qty = 1\<rparr>]"
    using q(7) unfolding ms .
  have tr2: "trades (states ! 50) = trades (states ! 49) + 2"
    using q(9) unfolding ms by simp
  have fills: "\<exists>(bid_call :: order_call) (ask_call :: order_call).
                 inventory (states ! 50)
                   = inventory (states ! 49)
                     + inventory_change (call_id ask_call)
                         [\<lparr>aggressor_id = call_id bid_call, price = call_price bid_call, qty = 1\<rparr>,
                          \<lparr>aggressor_id = call_id ask_call, price = call_price ask_call, qty = 1\<rparr>]
                 \<and> trades (states ! 50) = trades (states ! 49) + 2"
    by (rule exI [of _ bc], rule exI [of _ ac], rule conjI [OF inv2 tr2])
  have len: "length states = 61"
    using r(1) by simp
  have fin: "run_loop echo_engine (\<lambda>window. 0) default_params ?events = Inr (states ! 60)"
    "pnl res = cash (states ! 60) + inventory (states ! 60) * 1"
    "trades_total res = trades (states ! 60)"
    using r(5,9,10) prices by simp_all
  have "\<exists>states res.
         length states = 61
         \<and> inventory (states ! 0) = 0 \<and> cash (states ! 0) = 0 \<and> trades (states ! 0) = 0
         \<and> step echo_engine (\<lambda>window. 0) default_params (states ! 48) 48 buy_event
             = Inr (states ! 49)
         \<and> inventory (states ! 49) = inventory (states ! 48)
         \<and> cash (states ! 49) = cash (states ! 48)
         \<and> trades (states ! 49) = trades (states ! 48)
         \<and> step echo_engine (\<lambda>window. 0) default_params (states ! 49) 49 buy_event
             = Inr (states ! 50)
         \<and> (\<exists>(bid_call :: order_call) (ask_call :: order_call).
               inventory (states ! 50)
                 = inventory (states ! 49)
                   + inventory_change (call_id ask_call)
                       [\<lparr>aggressor_id = call_id bid_call, price = call_price bid_call, qty = 1\<rparr>,
                        \<lparr>aggressor_id = call_id ask_call, price = call_price ask_call, qty = 1\<rparr>]
               \<and> trades (states ! 50) = trades (states ! 49) + 2)
         \<and> run_loop echo_engine (\<lambda>window. 0) default_params (replicate 60 buy_event)
             = Inr (states ! 60)
         \<and> run_backtest echo_engine (\<lambda>window. 0) default_params (replicate 60 buy_event) 1
             = Inr res
         \<and> pnl res = cash (states ! 60) + inventory (states ! 60) * 1
         \<and> trades_total res = trades (states ! 60)"
    apply (rule exI [of _ states], rule exI [of _ res])
    apply (intro conjI)
    apply (fact len r(2-4) k48 s49 fills fin r(8))+
    done
  then show ?thesis
    by (intro conjI echo_engine_ok default_params_positive)
qed

end
